theory Spec2Isabelle
  imports Complex_Main
begin

section \<open>Wire messages and the Python conversions applied to them\<close>

text \<open>
  Both transports carry UTF-8 text holding one JSON value. The programs never look at the
  bytes: they hand them to \<^verbatim>\<open>json.loads\<close> and work on the value that comes back. A
  received payload is therefore modelled by \<open>json option\<close>, where \<open>None\<close> stands for bytes
  on which decoding or \<^verbatim>\<open>json.loads\<close> raises. Python floats are modelled by reals
  (the non-finite floats are outside the model).
\<close>

datatype json =
    JNull
  | JBool bool
  | JInt int
  | JFloat real
  | JStr string
  | JArr "json list"
  | JObj "(string \<times> json) list"

datatype py_error =
    JSONDecodeError
  | UnicodeDecodeError
  | AttributeError
  | TypeError
  | ValueError
  | OverflowError
  | OSError
  | DuplicateSeq int

text \<open>A JSON object becomes a dict; of a repeated key the last occurrence is kept.\<close>

definition dict_get :: "(string \<times> json) list \<Rightarrow> string \<Rightarrow> json option" where
  "dict_get kvs k = map_of (rev kvs) k"

text \<open>\<^verbatim>\<open>x.get(k)\<close>: only a dict has the method; a missing key gives Python's None.\<close>

fun py_get :: "json \<Rightarrow> string \<Rightarrow> py_error + json" where
  "py_get (JObj kvs) k = Inr (case dict_get kvs k of None \<Rightarrow> JNull | Some v \<Rightarrow> v)"
| "py_get _ k = Inl AttributeError"

text \<open>\<^verbatim>\<open>x.get(k, d)\<close>: as above with the default \<open>d\<close> for a missing key.\<close>

fun py_get_default :: "json \<Rightarrow> string \<Rightarrow> json \<Rightarrow> py_error + json" where
  "py_get_default (JObj kvs) k d = Inr (case dict_get kvs k of None \<Rightarrow> d | Some v \<Rightarrow> v)"
| "py_get_default _ k d = Inl AttributeError"

text \<open>
  \<^verbatim>\<open>int(s)\<close> on a string: surrounding white space is stripped, one sign is allowed, then
  decimal digits, where single underscores may separate digits. A character of the model
  is a code point below 256. Among these the white space that \<^verbatim>\<open>int\<close> strips is the
  blank, the five controls from tab to carriage return, and the two characters NEL (0x85)
  and no-break space (0xA0); the separators 0x1C to 0x1F are not stripped, and the only
  decimal digits are 0 to 9. Strings with code points from 256 on are outside the model,
  and so is the limit that newer interpreters put on the number of digits.
\<close>

definition is_space :: "char \<Rightarrow> bool" where
  "is_space c = (c \<in> set [CHR '' '', CHR 0x09, CHR 0x0A, CHR 0x0B, CHR 0x0C, CHR 0x0D,
                           CHR 0x85, CHR 0xA0])"

definition strip :: "string \<Rightarrow> string" where
  "strip s = rev (dropWhile is_space (rev (dropWhile is_space s)))"

definition digit_val :: "char \<Rightarrow> nat option" where
  "digit_val c =
     (let n = of_char c :: nat in if 48 \<le> n \<and> n \<le> 57 then Some (n - 48) else None)"

text \<open>
  \<open>digits acc prev s\<close> reads the rest of a digit string; \<open>prev\<close> tells whether the
  character before was a digit (an underscore must stand between two digits).
\<close>

fun digits :: "nat \<Rightarrow> bool \<Rightarrow> string \<Rightarrow> nat option" where
  "digits acc prev [] = (if prev then Some acc else None)"
| "digits acc prev (c # cs) =
     (if c = CHR ''_'' then (if prev \<and> cs \<noteq> [] then digits acc False cs else None)
      else case digit_val c of
             None \<Rightarrow> None
           | Some d \<Rightarrow> digits (acc * 10 + d) True cs)"

definition int_of_string :: "string \<Rightarrow> int option" where
  "int_of_string s =
     (case strip s of
        [] \<Rightarrow> None
      | c # cs \<Rightarrow>
          if c = CHR ''-'' then map_option (\<lambda>n. - int n) (digits 0 False cs)
          else if c = CHR ''+'' then map_option int (digits 0 False cs)
          else map_option int (digits 0 False (c # cs)))"

text \<open>\<^verbatim>\<open>int(x)\<close>: a float is truncated towards zero, a bool is an int.\<close>

definition trunc :: "real \<Rightarrow> int" where
  "trunc r = (if 0 \<le> r then \<lfloor>r\<rfloor> else \<lceil>r\<rceil>)"

fun py_int :: "json \<Rightarrow> py_error + int" where
  "py_int JNull = Inl TypeError"
| "py_int (JBool b) = Inr (if b then 1 else 0)"
| "py_int (JInt i) = Inr i"
| "py_int (JFloat r) = Inr (trunc r)"
| "py_int (JStr s) = (case int_of_string s of None \<Rightarrow> Inl ValueError | Some i \<Rightarrow> Inr i)"
| "py_int (JArr xs) = Inl TypeError"
| "py_int (JObj kvs) = Inl TypeError"

text \<open>
  \<^verbatim>\<open>int(json.loads(data).get("seq"))\<close>, the way both servers and the UDP client read the
  sequence number of a message.
\<close>

definition parse_seq :: "json option \<Rightarrow> py_error + int" where
  "parse_seq m =
     (case m of
        None \<Rightarrow> Inl JSONDecodeError
      | Some j \<Rightarrow> (case py_get j ''seq'' of Inl e \<Rightarrow> Inl e | Inr v \<Rightarrow> py_int v))"

text \<open>
  The value of \<open>x\<close> in the float arithmetic of \<^verbatim>\<open>x - send_ts\<close>. An integer is converted
  to a float first, which raises when it rounds to a magnitude of \<open>2 ^ 1024\<close> or more;
  values that are not numbers raise.
\<close>

definition float_limit :: int where
  "float_limit = 2 ^ 1024 - 2 ^ 970"

fun py_num :: "json \<Rightarrow> py_error + real" where
  "py_num (JInt i) = (if \<bar>i\<bar> < float_limit then Inr (of_int i) else Inl OverflowError)"
| "py_num (JFloat r) = Inr r"
| "py_num (JBool b) = Inr (if b then 1 else 0)"
| "py_num _ = Inl TypeError"

section \<open>The UDP client (A3\_Client.py)\<close>

datatype outcome = ACKED | TIMEOUT

text \<open>
  A row of the CSV log. A field that the source writes as the empty string is \<open>None\<close>;
  a number is kept as the value handed to the formatter.
\<close>

record row =
  r_seq :: int
  r_send_ts :: "real option"
  r_ack_ts :: "real option"
  r_rtt_ms :: "real option"
  r_outcome :: outcome

text \<open>What the client prints in verbose mode.\<close>

datatype console =
    Sent int
  | AckedRtt int real
  | RxError
  | TimedOut int

text \<open>The local variables of \<^verbatim>\<open>main\<close> that the probe loop updates, and the log file.\<close>

record client_state =
  sent_count :: nat
  ack_count :: nat
  seen_seqs :: "int set"
  send_perf :: "int \<rightharpoonup> real"
  send_wall :: "int \<rightharpoonup> real"
  ack_perf :: "int \<rightharpoonup> real"
  ack_wall :: "int \<rightharpoonup> real"
  finalized :: "int set"
  log_rows :: "row list"
  out :: "console list"

definition init_state :: client_state where
  "init_state = \<lparr> sent_count = 0, ack_count = 0, seen_seqs = {}, send_perf = Map.empty,
     send_wall = Map.empty, ack_perf = Map.empty, ack_wall = Map.empty, finalized = {},
     log_rows = [], out = [] \<rparr>"

record client_args =
  a_n :: int
  a_timeout :: real
  a_seed :: int
  a_verbose :: bool

text \<open>The nested function \<^verbatim>\<open>finalize(seq, outcome)\<close>.\<close>

definition finalize :: "int \<Rightarrow> outcome \<Rightarrow> client_state \<Rightarrow> client_state" where
  "finalize seq oc st =
     (if seq \<in> finalized st then st
      else
        let row0 = \<lparr> r_seq = seq,
                     r_send_ts = send_wall st seq,
                     r_ack_ts = (if oc = ACKED then ack_wall st seq else None),
                     r_rtt_ms = None,
                     r_outcome = oc \<rparr>;
            row1 = (if oc = ACKED then
                      (case (send_perf st seq, ack_perf st seq) of
                         (Some s, Some a) \<Rightarrow> row0\<lparr> r_rtt_ms := Some ((a - s) * 1000) \<rparr>
                       | _ \<Rightarrow> row0)
                    else row0)
        in st\<lparr> log_rows := log_rows st @ [row1], finalized := insert seq (finalized st) \<rparr>)"

text \<open>
  One pass of the receive loop is driven by two things the environment supplies: the
  reading of the monotonic clock at the top of the pass, and what \<^verbatim>\<open>recvfrom\<close> does.
\<close>

datatype recv_result =
    SockTimeout
  | RecvFails
  | Datagram "json option" real real

datatype rx_step = Rx real recv_result

definition say :: "bool \<Rightarrow> console \<Rightarrow> client_state \<Rightarrow> client_state" where
  "say v c st = (if v then st\<lparr> out := out st @ [c] \<rparr> else st)"

text \<open>
  The first observation of an acknowledgment for \<open>s\<close> stores both clock readings (and
  prints the round-trip time when \<open>s\<close> was sent already); a later one stores nothing.
\<close>

definition observe :: "bool \<Rightarrow> int \<Rightarrow> real \<Rightarrow> real \<Rightarrow> client_state \<Rightarrow> client_state" where
  "observe v s tp tw st =
     (if ack_perf st s = None then
        let st' = st\<lparr> ack_perf := (ack_perf st)(s \<mapsto> tp),
                      ack_wall := (ack_wall st)(s \<mapsto> tw) \<rparr>
        in (case send_perf st s of
              None \<Rightarrow> st'
            | Some sp \<Rightarrow> say v (AckedRtt s ((tp - sp) * 1000)) st')
      else st)"

text \<open>
  The body of the \<^verbatim>\<open>try\<close> after a datagram came in at monotonic time \<open>tp\<close> and wall time
  \<open>tw\<close>. The result says whether the loop is left (\<^verbatim>\<open>got_current\<close> and \<^verbatim>\<open>break\<close>).
\<close>

definition on_datagram ::
  "bool \<Rightarrow> int \<Rightarrow> json option \<Rightarrow> real \<Rightarrow> real \<Rightarrow> client_state \<Rightarrow> client_state \<times> bool" where
  "on_datagram v seq m tp tw st =
     (case parse_seq m of
        Inl e \<Rightarrow> (say v RxError st, False)
      | Inr s \<Rightarrow>
          let st1 = observe v s tp tw st
          in if s = seq \<and> seq \<notin> finalized st1
             then (finalize seq ACKED (st1\<lparr> ack_count := ack_count st1 + 1 \<rparr>), True)
             else (st1, False))"

text \<open>
  The \<^verbatim>\<open>while True\<close> loop of one probe. The list holds the passes the environment lets
  happen; when it is used up the clock has passed the deadline.
\<close>

fun wait_loop ::
  "bool \<Rightarrow> int \<Rightarrow> real \<Rightarrow> rx_step list \<Rightarrow> client_state \<Rightarrow> client_state \<times> bool" where
  "wait_loop v seq deadline [] st = (st, False)"
| "wait_loop v seq deadline (Rx now r # rest) st =
     (if deadline - now \<le> 0 then (st, False)
      else case r of
             SockTimeout \<Rightarrow> (st, False)
           | RecvFails \<Rightarrow> wait_loop v seq deadline rest (say v RxError st)
           | Datagram m tp tw \<Rightarrow>
               (case on_datagram v seq m tp tw st of
                  (st', True) \<Rightarrow> (st', True)
                | (st', False) \<Rightarrow> wait_loop v seq deadline rest st'))"

text \<open>What the environment supplies during the turn of one sequence number.\<close>

record probe_env =
  e_send_wall :: real
  e_send_perf :: real
  e_send_ok :: bool
  e_wait_start :: real
  e_rx :: "rx_step list"

text \<open>The code after the receive loop: an earlier observation counts, else a timeout.\<close>

definition after_wait :: "bool \<Rightarrow> int \<Rightarrow> client_state \<times> bool \<Rightarrow> client_state" where
  "after_wait v seq r =
     (case r of (st, got_current) \<Rightarrow>
        if \<not> got_current \<and> seq \<notin> finalized st then
          (if ack_perf st seq \<noteq> None
           then finalize seq ACKED (st\<lparr> ack_count := ack_count st + 1 \<rparr>)
           else say v (TimedOut seq) (finalize seq TIMEOUT st))
        else st)"

text \<open>
  The body of \<^verbatim>\<open>for seq in range(1, args.n + 1)\<close>. A failing \<^verbatim>\<open>sendto\<close> ends the
  program with its exception. The jittered sleep that closes the body only lets time pass
  and is left out, and writing the log file is taken to succeed.
\<close>

definition probe_turn ::
  "client_args \<Rightarrow> probe_env \<Rightarrow> int \<Rightarrow> client_state \<Rightarrow> py_error + client_state" where
  "probe_turn a env seq st =
     (if seq \<in> seen_seqs st then Inl (DuplicateSeq seq)
      else
        let st1 = st\<lparr> seen_seqs := insert seq (seen_seqs st),
                      send_perf := (send_perf st)(seq \<mapsto> e_send_perf env),
                      send_wall := (send_wall st)(seq \<mapsto> e_send_wall env) \<rparr>
        in if \<not> e_send_ok env then Inl OSError
           else
             let st2 = say (a_verbose a) (Sent seq) (st1\<lparr> sent_count := sent_count st1 + 1 \<rparr>);
                 deadline = e_wait_start env + a_timeout a
             in Inr (after_wait (a_verbose a) seq
                       (wait_loop (a_verbose a) seq deadline (e_rx env) st2)))"

fun client_loop ::
  "client_args \<Rightarrow> (int \<Rightarrow> probe_env) \<Rightarrow> int list \<Rightarrow> client_state \<Rightarrow> py_error + client_state" where
  "client_loop a env [] st = Inr st"
| "client_loop a env (seq # rest) st =
     (case probe_turn a (env seq) seq st of
        Inl e \<Rightarrow> Inl e
      | Inr st' \<Rightarrow> client_loop a env rest st')"

definition client_run :: "client_args \<Rightarrow> (int \<Rightarrow> probe_env) \<Rightarrow> py_error + client_state" where
  "client_run a env = client_loop a env [1 .. a_n a] init_state"

subsection \<open>The summary\<close>

text \<open>
  After the loop the client reads its own log back: the round-trip times of the rows with
  outcome ACKED and a non-empty \<^verbatim>\<open>rtt_ms\<close>. The text in the file is the \<^verbatim>\<open>.3f\<close>
  rendering of the value, so what is read back is \<open>fmt3 x\<close>, the float that this text
  denotes. \<open>fmt3\<close> and \<open>rnd\<close> (Python's \<^verbatim>\<open>round(x, ndigits)\<close> on floats) are
  parameters: they are the library's float arithmetic, not code of this program.
\<close>

definition logged_rtts :: "(real \<Rightarrow> real) \<Rightarrow> row list \<Rightarrow> real list" where
  "logged_rtts fmt3 rows =
     map fmt3 (List.map_filter (\<lambda>r. if r_outcome r = ACKED then r_rtt_ms r else None) rows)"

definition mean :: "real list \<Rightarrow> real" where
  "mean xs = sum_list xs / real (length xs)"

definition stat :: "(nat \<Rightarrow> real \<Rightarrow> real) \<Rightarrow> real list \<Rightarrow> (real list \<Rightarrow> real) \<Rightarrow> json" where
  "stat rnd rtts f = (if rtts = [] then JNull else JFloat (rnd 3 (f rtts)))"

definition loss_ratio :: "(nat \<Rightarrow> real \<Rightarrow> real) \<Rightarrow> nat \<Rightarrow> nat \<Rightarrow> json" where
  "loss_ratio rnd sent acked =
     (if sent = 0 then JInt 0
      else JFloat (rnd 2 ((real sent - real acked) / real sent)))"

definition client_summary ::
  "(nat \<Rightarrow> real \<Rightarrow> real) \<Rightarrow> (real \<Rightarrow> real) \<Rightarrow> client_args \<Rightarrow> client_state \<Rightarrow> json" where
  "client_summary rnd fmt3 a st =
     (let rtts = logged_rtts fmt3 (log_rows st)
      in JObj [(''sent'', JInt (int (sent_count st))),
               (''acked'', JInt (int (ack_count st))),
               (''loss_ratio'', loss_ratio rnd (sent_count st) (ack_count st)),
               (''seed'', JInt (a_seed a)),
               (''rtt_ms'', JObj [(''avg'', stat rnd rtts mean),
                                  (''min'', stat rnd rtts (\<lambda>xs. Min (set xs))),
                                  (''max'', stat rnd rtts (\<lambda>xs. Max (set xs)))])])"

text \<open>Reading a field of a printed summary: \<open>None\<close> when the object has no such key.\<close>

fun field :: "json \<Rightarrow> string \<Rightarrow> json option" where
  "field (JObj kvs) k = dict_get kvs k"
| "field _ k = None"

section \<open>The TCP client (A3\_TCP\_Client.py)\<close>

text \<open>A tuple of \<^verbatim>\<open>results\<close>; the last two components are Python's None after a timeout.\<close>

record tcp_row =
  t_seq :: int
  t_send_ts :: real
  t_ack_ts :: "real option"
  t_rtt_ms :: "real option"

datatype tcp_console =
    AckLine int real
  | TimeoutLine int
  | ErrorLine int py_error

record tcp_state =
  results :: "tcp_row list"
  rtts :: "real list"
  wire :: "int list"
  tcp_out :: "tcp_console list"

definition tcp_init :: tcp_state where
  "tcp_init = \<lparr> results = [], rtts = [], wire = [], tcp_out = [] \<rparr>"

text \<open>
  What the connection does for one probe: \<^verbatim>\<open>sendall\<close> or \<^verbatim>\<open>recv\<close> runs into the
  socket timeout or fails otherwise, or \<^verbatim>\<open>recv\<close> returns data; these come with the result
  of \<^verbatim>\<open>json.loads\<close> on them and the wall clock read for the default of \<^verbatim>\<open>get\<close>.
\<close>

datatype tcp_io =
    SendTimeout
  | SendFails
  | RecvTimeout
  | RecvBroken
  | RecvData "json option" real

record tcp_env =
  te_send_ts :: real
  te_io :: tcp_io

datatype 'a ctl = Next 'a | Stop 'a

definition tcp_timeout :: "bool \<Rightarrow> int \<Rightarrow> real \<Rightarrow> tcp_state \<Rightarrow> tcp_state" where
  "tcp_timeout v seq send_ts st =
     st\<lparr> results := results st @ [\<lparr> t_seq = seq, t_send_ts = send_ts, t_ack_ts = None, t_rtt_ms = None \<rparr>],
         tcp_out := tcp_out st @ (if v then [TimeoutLine seq] else []) \<rparr>"

definition tcp_error :: "int \<Rightarrow> py_error \<Rightarrow> tcp_state \<Rightarrow> tcp_state" where
  "tcp_error seq e st = st\<lparr> tcp_out := tcp_out st @ [ErrorLine seq e] \<rparr>"

definition tcp_sent :: "int \<Rightarrow> tcp_state \<Rightarrow> tcp_state" where
  "tcp_sent seq st = st\<lparr> wire := wire st @ [seq] \<rparr>"

text \<open>The lines of the \<^verbatim>\<open>try\<close> block after \<^verbatim>\<open>recv\<close> returned.\<close>

definition tcp_on_data :: "bool \<Rightarrow> int \<Rightarrow> real \<Rightarrow> json option \<Rightarrow> real \<Rightarrow> tcp_state \<Rightarrow> tcp_state ctl" where
  "tcp_on_data v seq send_ts m now st =
     (case m of
        None \<Rightarrow> Stop (tcp_error seq JSONDecodeError st)
      | Some ack \<Rightarrow>
          (case py_get_default ack ''server_recv_ts'' (JFloat now) of
             Inl e \<Rightarrow> Stop (tcp_error seq e st)
           | Inr x \<Rightarrow>
               (case py_num x of
                  Inl e \<Rightarrow> Stop (tcp_error seq e st)
                | Inr ack_ts \<Rightarrow>
                    let rtt_ms = (ack_ts - send_ts) * 1000
                    in Next (st\<lparr> rtts := rtts st @ [rtt_ms],
                                  results := results st @
                                    [\<lparr> t_seq = seq, t_send_ts = send_ts,
                                       t_ack_ts = Some ack_ts, t_rtt_ms = Some rtt_ms \<rparr>],
                                  tcp_out := tcp_out st @ (if v then [AckLine seq rtt_ms] else []) \<rparr>))))"

text \<open>The body of the \<^verbatim>\<open>for\<close> loop; \<open>Stop\<close> is the \<^verbatim>\<open>break\<close>.\<close>

definition tcp_probe :: "bool \<Rightarrow> tcp_env \<Rightarrow> int \<Rightarrow> tcp_state \<Rightarrow> tcp_state ctl" where
  "tcp_probe v env seq st =
     (case te_io env of
        SendTimeout \<Rightarrow> Next (tcp_timeout v seq (te_send_ts env) st)
      | SendFails \<Rightarrow> Stop (tcp_error seq OSError st)
      | RecvTimeout \<Rightarrow> Next (tcp_timeout v seq (te_send_ts env) (tcp_sent seq st))
      | RecvBroken \<Rightarrow> Stop (tcp_error seq OSError (tcp_sent seq st))
      | RecvData m now \<Rightarrow> tcp_on_data v seq (te_send_ts env) m now (tcp_sent seq st))"

fun tcp_loop :: "bool \<Rightarrow> (int \<Rightarrow> tcp_env) \<Rightarrow> int list \<Rightarrow> tcp_state \<Rightarrow> tcp_state" where
  "tcp_loop v env [] st = st"
| "tcp_loop v env (seq # rest) st =
     (case tcp_probe v (env seq) seq st of
        Next st' \<Rightarrow> tcp_loop v env rest st'
      | Stop st' \<Rightarrow> st')"

record tcp_args =
  ta_n :: int
  ta_verbose :: bool

definition tcp_run :: "tcp_args \<Rightarrow> (int \<Rightarrow> tcp_env) \<Rightarrow> tcp_state" where
  "tcp_run a env = tcp_loop (ta_verbose a) env [1 .. ta_n a] tcp_init"

text \<open>\<^verbatim>\<open>statistics.median\<close> of a non-empty list.\<close>

definition median :: "real list \<Rightarrow> real" where
  "median xs =
     (let s = sort xs; n = length s
      in if odd n then s ! (n div 2) else (s ! (n div 2 - 1) + s ! (n div 2)) / 2)"

text \<open>
  The summary of the TCP client; \<open>hs\<close> and \<open>dur\<close> are the measured handshake time and
  session duration in milliseconds.
\<close>

definition tcp_summary :: "(nat \<Rightarrow> real \<Rightarrow> real) \<Rightarrow> tcp_args \<Rightarrow> real \<Rightarrow> real \<Rightarrow> tcp_state \<Rightarrow> json" where
  "tcp_summary rnd a hs dur st =
     (if rtts st \<noteq> [] then
        JObj [(''sent'', JInt (ta_n a)),
              (''acked'', JInt (int (length (rtts st)))),
              (''rtt_ms'', JObj [(''avg'', JFloat (rnd 3 (mean (rtts st)))),
                                 (''min'', JFloat (rnd 3 (Min (set (rtts st))))),
                                 (''max'', JFloat (rnd 3 (Max (set (rtts st))))),
                                 (''median'', JFloat (rnd 3 (median (rtts st))))]),
              (''handshake_ms'', JFloat (rnd 3 hs)),
              (''session_duration_ms'', JFloat (rnd 3 dur))]
      else
        JObj [(''sent'', JInt (ta_n a)),
              (''acked'', JInt 0),
              (''rtt_ms'', JNull),
              (''handshake_ms'', JFloat (rnd 3 hs)),
              (''session_duration_ms'', JFloat (rnd 3 dur))])"

section \<open>The UDP server (A3.py)\<close>

record server_args =
  s_host :: string
  s_port :: int
  s_loss_prob :: real
  s_drop_k :: int
  s_seed :: int
  s_verbose :: bool

type_synonym addr = "string \<times> int"

record dgram =
  d_data :: "json option"
  d_addr :: addr
  d_recv_ts :: real

text \<open>What the server does with one datagram.\<close>

datatype server_event =
    Ignored
  | DropK int
  | LossProb int
  | AckTo json addr

definition ack_msg :: "int \<Rightarrow> real \<Rightarrow> json" where
  "ack_msg seq recv_ts = JObj [(''seq'', JInt seq), (''server_recv_ts'', JFloat recv_ts)]"

text \<open>
  One pass of the serve loop. The state is the receive counter and the state of the
  random generator; \<open>rng\<close> is \<^verbatim>\<open>random.random()\<close>, which returns a draw and moves the
  generator on. It is called only when the probabilistic model is on and the probe was
  not dropped by the deterministic rule.
\<close>

definition serve_one ::
  "('g \<Rightarrow> real \<times> 'g) \<Rightarrow> server_args \<Rightarrow> dgram \<Rightarrow> nat \<times> 'g \<Rightarrow> (nat \<times> 'g) \<times> server_event" where
  "serve_one rng a d s =
     (case s of (recv_count, g) \<Rightarrow>
        (case parse_seq (d_data d) of
           Inl e \<Rightarrow> ((recv_count + 1, g), Ignored)
         | Inr seq \<Rightarrow>
             if s_drop_k a > 0 \<and> seq mod s_drop_k a = 0 then ((recv_count + 1, g), DropK seq)
             else if s_loss_prob a > 0 then
               (case rng g of (u, g') \<Rightarrow>
                  if u < s_loss_prob a then ((recv_count + 1, g'), LossProb seq)
                  else ((recv_count + 1, g'), AckTo (ack_msg seq (d_recv_ts d)) (d_addr d)))
             else ((recv_count + 1, g), AckTo (ack_msg seq (d_recv_ts d)) (d_addr d))))"

fun serve ::
  "('g \<Rightarrow> real \<times> 'g) \<Rightarrow> server_args \<Rightarrow> dgram list \<Rightarrow> nat \<times> 'g \<Rightarrow> (nat \<times> 'g) \<times> server_event list" where
  "serve rng a [] s = (s, [])"
| "serve rng a (d # ds) s =
     (case serve_one rng a d s of (s', ev) \<Rightarrow>
        (case serve rng a ds s' of (s'', evs) \<Rightarrow> (s'', ev # evs)))"

text \<open>The sequence numbers the server dropped, in the order of arrival.\<close>

fun dropped :: "server_event list \<Rightarrow> int list" where
  "dropped [] = []"
| "dropped (DropK seq # evs) = seq # dropped evs"
| "dropped (LossProb seq # evs) = seq # dropped evs"
| "dropped (ev # evs) = dropped evs"

text \<open>
  The whole of \<^verbatim>\<open>main\<close> as the trace of its effects and the exit status, for a run that
  is interrupted after the datagrams \<open>ds\<close> were received. \<open>seed_rng\<close> is
  \<^verbatim>\<open>random.seed\<close>. The lines printed in verbose mode are not part of the trace.
\<close>

datatype effect =
    WriteStderr string
  | SeedRandom int
  | OpenSocket
  | SetReuseAddr
  | Bind string int
  | RecvFrom addr
  | SendTo json addr
  | PrintSummary nat string

definition loss_model :: "server_args \<Rightarrow> string" where
  "loss_model a =
     (if s_drop_k a > 0 then ''drop-k'' else if s_loss_prob a > 0 then ''bernoulli'' else ''none'')"

fun wire_effects :: "dgram list \<Rightarrow> server_event list \<Rightarrow> effect list" where
  "wire_effects (d # ds) (AckTo ack to # evs) = RecvFrom (d_addr d) # SendTo ack to # wire_effects ds evs"
| "wire_effects (d # ds) (ev # evs) = RecvFrom (d_addr d) # wire_effects ds evs"
| "wire_effects _ _ = []"

definition server_main ::
  "(int \<Rightarrow> 'g) \<Rightarrow> ('g \<Rightarrow> real \<times> 'g) \<Rightarrow> server_args \<Rightarrow> dgram list \<Rightarrow> effect list \<times> int" where
  "server_main seed_rng rng a ds =
     (if s_loss_prob a > 0 \<and> s_drop_k a > 0
      then ([WriteStderr ''Use only one loss model at a time (--loss-prob OR --drop-k).''], 1)
      else
        (case serve rng a ds (0, seed_rng (s_seed a)) of
           ((recv_count, g), evs) \<Rightarrow>
             ([SeedRandom (s_seed a), OpenSocket, SetReuseAddr, Bind (s_host a) (s_port a)]
                @ wire_effects ds evs @ [PrintSummary recv_count (loss_model a)], 0)))"

definition is_network :: "effect \<Rightarrow> bool" where
  "is_network e =
     (case e of
        OpenSocket \<Rightarrow> True
      | SetReuseAddr \<Rightarrow> True
      | Bind h p \<Rightarrow> True
      | RecvFrom a \<Rightarrow> True
      | SendTo m a \<Rightarrow> True
      | _ \<Rightarrow> False)"

section \<open>The TCP server (A3\_TCP.py)\<close>

text \<open>
  What the iteration over the connection yields: a line that is empty after \<^verbatim>\<open>strip\<close>; a
  line of text, with the result of \<^verbatim>\<open>json.loads\<close> on it (\<open>None\<close> when it raises) and the
  wall clock read on its arrival; or bytes that are not UTF-8, on which the iteration itself
  raises. This happens outside the inner \<^verbatim>\<open>try\<close>, so the exception leaves
  \<^verbatim>\<open>handle_connection\<close> (through its \<^verbatim>\<open>finally\<close>) and, uncaught in \<^verbatim>\<open>main\<close>, ends the
  server. Writing to the connection is taken to succeed.
\<close>

datatype line = Blank | Text "json option" real | Undecodable

datatype reply = Sleep real | WriteAck json

text \<open>The replies written on one connection, and the exception that ended it, if any.\<close>

fun handle_connection :: "real \<Rightarrow> line list \<Rightarrow> reply list \<times> py_error option" where
  "handle_connection delay_ms [] = ([], None)"
| "handle_connection delay_ms (Blank # ls) = handle_connection delay_ms ls"
| "handle_connection delay_ms (Undecodable # ls) = ([], Some UnicodeDecodeError)"
| "handle_connection delay_ms (Text m recv_ts # ls) =
     (case parse_seq m of
        Inl e \<Rightarrow> handle_connection delay_ms ls
      | Inr seq \<Rightarrow>
          (case handle_connection delay_ms ls of
             (replies, raised) \<Rightarrow>
               ((if delay_ms > 0 then [Sleep (delay_ms / 1000)] else [])
                  @ WriteAck (ack_msg seq recv_ts) # replies, raised)))"

text \<open>
  \<^verbatim>\<open>main\<close>: connections are served one after the other until one of them ends with an
  exception, which ends the server.
\<close>

fun tcp_server :: "real \<Rightarrow> line list list \<Rightarrow> reply list list \<times> py_error option" where
  "tcp_server delay_ms [] = ([], None)"
| "tcp_server delay_ms (conn # conns) =
     (case handle_connection delay_ms conn of
        (replies, Some e) \<Rightarrow> ([replies], Some e)
      | (replies, None) \<Rightarrow>
          (case tcp_server delay_ms conns of (rest, raised) \<Rightarrow> (replies # rest, raised)))"

section \<open>Notions used in the statements\<close>

subsection \<open>The log and the acknowledgment store of the UDP client\<close>

text \<open>The rows of the log that belong to one sequence number.\<close>

definition rows_of :: "int \<Rightarrow> client_state \<Rightarrow> row list" where
  "rows_of seq st = filter (\<lambda>r. r_seq r = seq) (log_rows st)"

text \<open>The row that \<open>finalize\<close> writes for \<open>seq\<close>, read off a state.\<close>

definition row_for :: "int \<Rightarrow> outcome \<Rightarrow> client_state \<Rightarrow> row" where
  "row_for seq oc st =
     \<lparr> r_seq = seq, r_send_ts = send_wall st seq,
       r_ack_ts = (if oc = ACKED then ack_wall st seq else None),
       r_rtt_ms = (if oc = ACKED then
                     (case (send_perf st seq, ack_perf st seq) of
                        (Some s, Some a) \<Rightarrow> Some ((a - s) * 1000)
                      | _ \<Rightarrow> None)
                   else None),
       r_outcome = oc \<rparr>"

text \<open>
  The acknowledgment store only grows: what is stored for a sequence number in \<open>st\<close> is
  still what is stored for it in \<open>st'\<close>.
\<close>

definition store_le :: "client_state \<Rightarrow> client_state \<Rightarrow> bool" where
  "store_le st st' =
     (\<forall>s. ack_perf st s \<noteq> None \<longrightarrow> ack_perf st' s = ack_perf st s \<and> ack_wall st' s = ack_wall st s)"

text \<open>The rows with outcome ACKED.\<close>

definition acked_rows :: "client_state \<Rightarrow> row list" where
  "acked_rows st = filter (\<lambda>r. r_outcome r = ACKED) (log_rows st)"

text \<open>
  The invariant of the probe loop: the finalized set is the set of logged sequence numbers,
  each logged once and each sent; the counter of acknowledgments counts the ACKED rows; and
  every row is the one \<open>finalize\<close> would build from the present dictionaries.
\<close>

definition consistent :: "client_state \<Rightarrow> bool" where
  "consistent st =
     (finalized st \<subseteq> seen_seqs st
      \<and> finalized st = set (map r_seq (log_rows st))
      \<and> distinct (map r_seq (log_rows st))
      \<and> ack_count st = length (acked_rows st)
      \<and> (\<forall>r \<in> set (log_rows st).
            r = row_for (r_seq r) (r_outcome r) st
            \<and> (r_outcome r = ACKED \<longrightarrow> ack_perf st (r_seq r) \<noteq> None)))"

subsection \<open>Clock readings\<close>

text \<open>
  The acknowledgments in the script of a turn: the sequence number each one parses to and
  the monotonic reading taken on its arrival.
\<close>

fun acks_in :: "rx_step list \<Rightarrow> (int \<times> real) list" where
  "acks_in [] = []"
| "acks_in (Rx now (Datagram m tp tw) # rest) =
     (case parse_seq m of Inl e \<Rightarrow> acks_in rest | Inr s \<Rightarrow> (s, tp) # acks_in rest)"
| "acks_in (x # rest) = acks_in rest"

text \<open>A row with outcome ACKED carries a round-trip time that is not negative.\<close>

definition rtt_ok :: "row \<Rightarrow> bool" where
  "rtt_ok r = (r_outcome r = ACKED \<longrightarrow> (\<exists>x. r_rtt_ms r = Some x \<and> 0 \<le> x))"

text \<open>
  A state without what was read from the wall clock: the two dictionaries of wall times
  and the two time stamps of every row are left out.
\<close>

definition mono_view ::
  "client_state \<Rightarrow> nat \<times> nat \<times> int set \<times> (int \<rightharpoonup> real) \<times> (int \<rightharpoonup> real) \<times> int set
     \<times> (int \<times> real option \<times> outcome) list \<times> console list" where
  "mono_view st =
     (sent_count st, ack_count st, seen_seqs st, send_perf st, ack_perf st, finalized st,
      map (\<lambda>r. (r_seq r, r_rtt_ms r, r_outcome r)) (log_rows st), out st)"

text \<open>The environment of a turn with every wall clock reading set to zero.\<close>

fun mono_step :: "rx_step \<Rightarrow> rx_step" where
  "mono_step (Rx now (Datagram m tp tw)) = Rx now (Datagram m tp 0)"
| "mono_step x = x"

definition mono_env :: "probe_env \<Rightarrow> probe_env" where
  "mono_env e = e\<lparr> e_send_wall := 0, e_rx := map mono_step (e_rx e) \<rparr>"

subsection \<open>What the UDP client reads, and the log this gives\<close>

text \<open>
  The acknowledgments that the client reads during the turn of \<open>cur\<close>, in the order of
  reading: the number each one carries with the monotonic and the wall clock reading taken
  on its arrival. This follows the receive attempts of the turn and not the code: reading
  ends when the clock has reached the deadline \<open>d\<close>, when the socket times out, and with
  the acknowledgment for \<open>cur\<close> itself; a failed receive and a datagram that does not parse
  are passed over.
\<close>

fun read_acks :: "real \<Rightarrow> int \<Rightarrow> rx_step list \<Rightarrow> (int \<times> real \<times> real) list" where
  "read_acks d cur [] = []"
| "read_acks d cur (Rx now r # rest) =
     (if d - now \<le> 0 then []
      else case r of
             SockTimeout \<Rightarrow> []
           | RecvFails \<Rightarrow> read_acks d cur rest
           | Datagram m tp tw \<Rightarrow>
               (case parse_seq m of
                  Inl e \<Rightarrow> read_acks d cur rest
                | Inr s \<Rightarrow> (s, tp, tw) # (if s = cur then [] else read_acks d cur rest)))"

definition turn_obs :: "client_args \<Rightarrow> (int \<Rightarrow> probe_env) \<Rightarrow> int \<Rightarrow> (int \<times> real \<times> real) list" where
  "turn_obs a env seq = read_acks (e_wait_start (env seq) + a_timeout a) seq (e_rx (env seq))"

text \<open>All that is read during the turns \<open>seqs\<close>, in order.\<close>

definition observed :: "client_args \<Rightarrow> (int \<Rightarrow> probe_env) \<Rightarrow> int list \<Rightarrow> (int \<times> real \<times> real) list" where
  "observed a env seqs = concat (map (turn_obs a env) seqs)"

text \<open>
  The two dictionaries of acknowledgment times hold, for every sequence number, the
  readings of the first acknowledgment for it in the list (\<open>map_of\<close> finds the first).
\<close>

definition stored :: "(int \<times> real \<times> real) list \<Rightarrow> client_state \<Rightarrow> bool" where
  "stored obs st =
     (ack_perf st = map_option fst \<circ> map_of obs \<and> ack_wall st = map_option snd \<circ> map_of obs)"

text \<open>
  The row of \<open>seq\<close> as the specification has it: ACKED with the times of the first
  observation \<open>x\<close> of its acknowledgment, if there is one, and TIMEOUT otherwise.
\<close>

definition row_of_obs :: "(int \<Rightarrow> probe_env) \<Rightarrow> int \<Rightarrow> (real \<times> real) option \<Rightarrow> row" where
  "row_of_obs env seq x =
     (case x of
        None \<Rightarrow> \<lparr> r_seq = seq, r_send_ts = Some (e_send_wall (env seq)), r_ack_ts = None,
                  r_rtt_ms = None, r_outcome = TIMEOUT \<rparr>
      | Some (tp, tw) \<Rightarrow>
          \<lparr> r_seq = seq, r_send_ts = Some (e_send_wall (env seq)), r_ack_ts = Some tw,
            r_rtt_ms = Some ((tp - e_send_perf (env seq)) * 1000), r_outcome = ACKED \<rparr>)"

text \<open>The first observation is looked for in the turns up to and including its own.\<close>

definition expected_row :: "client_args \<Rightarrow> (int \<Rightarrow> probe_env) \<Rightarrow> int \<Rightarrow> row" where
  "expected_row a env seq = row_of_obs env seq (map_of (observed a env [1 .. seq]) seq)"

text \<open>
  The same rows for the turns \<open>seqs\<close>, given the observations \<open>obs\<close> of the turns before
  them.
\<close>

fun expected_from ::
  "client_args \<Rightarrow> (int \<Rightarrow> probe_env) \<Rightarrow> (int \<times> real \<times> real) list \<Rightarrow> int list \<Rightarrow> row list" where
  "expected_from a env obs [] = []"
| "expected_from a env obs (seq # rest) =
     row_of_obs env seq (map_of (obs @ turn_obs a env seq) seq)
       # expected_from a env (obs @ turn_obs a env seq) rest"

text \<open>
  The acknowledgments read in a session of \<open>N\<close> probes come in time: one for the awaited
  probe is read at a monotonic time not before the reading taken when the probe was sent,
  and none is read for a probe that is still to be sent.
\<close>

definition on_time :: "client_args \<Rightarrow> (int \<Rightarrow> probe_env) \<Rightarrow> bool" where
  "on_time a env =
     (\<forall>seq \<in> {1 .. a_n a}. \<forall>(s, tp, tw) \<in> set (turn_obs a env seq).
         (s = seq \<longrightarrow> e_send_perf (env seq) \<le> tp) \<and> \<not> (seq < s \<and> s \<le> a_n a))"

subsection \<open>The servers\<close>

text \<open>The sequence numbers of the well-formed probes among the datagrams, in arrival order.\<close>

definition seqs_of :: "dgram list \<Rightarrow> int list" where
  "seqs_of ds =
     List.map_filter (\<lambda>d. case parse_seq (d_data d) of Inl e \<Rightarrow> None | Inr s \<Rightarrow> Some s) ds"

text \<open>
  The drops as a function of the two loss parameters, the generator and the sequence
  numbers alone.
\<close>

fun drops :: "('g \<Rightarrow> real \<times> 'g) \<Rightarrow> real \<Rightarrow> int \<Rightarrow> int list \<Rightarrow> 'g \<Rightarrow> int list" where
  "drops rng p k [] g = []"
| "drops rng p k (seq # rest) g =
     (if k > 0 \<and> seq mod k = 0 then seq # drops rng p k rest g
      else if p > 0 then
        (case rng g of (u, g') \<Rightarrow>
           if u < p then seq # drops rng p k rest g' else drops rng p k rest g')
      else drops rng p k rest g)"


subsection \<open>The TCP client\<close>

text \<open>
  In the turn with environment \<open>e\<close> an exception other than the socket timeout is raised
  while sending or receiving: \<^verbatim>\<open>sendall\<close> or \<^verbatim>\<open>recv\<close> fails, or what was received is not
  JSON, is not an object, or carries a time that is not a number within float range.
\<close>

definition raises :: "tcp_env \<Rightarrow> bool" where
  "raises e =
     (case te_io e of
        SendTimeout \<Rightarrow> False
      | SendFails \<Rightarrow> True
      | RecvTimeout \<Rightarrow> False
      | RecvBroken \<Rightarrow> True
      | RecvData m now \<Rightarrow>
          (case m of
             None \<Rightarrow> True
           | Some ack \<Rightarrow>
               (case py_get_default ack ''server_recv_ts'' (JFloat now) of
                  Inl err \<Rightarrow> True
                | Inr x \<Rightarrow> (case py_num x of Inl err \<Rightarrow> True | Inr ts \<Rightarrow> False))))"

section \<open>Concrete sessions\<close>

text \<open>Rounding to \<open>d\<close> decimals in exact arithmetic, ties to even, for \<open>rnd\<close> and \<open>fmt3\<close>.\<close>

definition round_half_even :: "real \<Rightarrow> int" where
  "round_half_even x =
     (let f = \<lfloor>x\<rfloor>; d = x - of_int f
      in if d < 1 / 2 then f else if 1 / 2 < d then f + 1 else if even f then f else f + 1)"

definition dec_round :: "nat \<Rightarrow> real \<Rightarrow> real" where
  "dec_round d x = of_int (round_half_even (x * 10 ^ d)) / 10 ^ d"

subsection \<open>Sessions of the UDP client\<close>

text \<open>An acknowledgment as the servers build it.\<close>

definition ack_of :: "int \<Rightarrow> real \<Rightarrow> json option" where
  "ack_of seq ts = Some (JObj [(''seq'', JInt seq), (''server_recv_ts'', JFloat ts)])"



text \<open>
  Two probes: the first is acknowledged in time; during the turn of the second a duplicate
  of the first acknowledgment arrives and then the socket times out. \<open>after_one\<close> is the
  state after the first turn.
\<close>

definition two :: client_args where
  "two = \<lparr> a_n = 2, a_timeout = 1, a_seed = 7, a_verbose = True \<rparr>"

definition dup_env :: "int \<Rightarrow> probe_env" where
  "dup_env seq =
     (if seq = 1 then
        \<lparr> e_send_wall = 100, e_send_perf = 0, e_send_ok = True, e_wait_start = 0,
          e_rx = [Rx (1/10) (Datagram (ack_of 1 (1001/10)) (2/10) (1002/10))] \<rparr>
      else
        \<lparr> e_send_wall = 102, e_send_perf = 2, e_send_ok = True, e_wait_start = 2,
          e_rx = [Rx (21/10) (Datagram (ack_of 1 (1001/10)) (22/10) (1022/10)),
                  Rx (23/10) SockTimeout] \<rparr>)"

definition after_one :: client_state where
  "after_one =
     \<lparr> sent_count = 1, ack_count = 1, seen_seqs = {1}, send_perf = [1 \<mapsto> 0],
       send_wall = [1 \<mapsto> 100], ack_perf = [1 \<mapsto> 2/10], ack_wall = [1 \<mapsto> 1002/10],
       finalized = {1},
       log_rows = [\<lparr> r_seq = 1, r_send_ts = Some 100, r_ack_ts = Some (1002/10),
                     r_rtt_ms = Some 200, r_outcome = ACKED \<rparr>],
       out = [Sent 1, AckedRtt 1 200] \<rparr>"


definition quiet_turn :: probe_env where
  "quiet_turn = \<lparr> e_send_wall = 102, e_send_perf = 2, e_send_ok = True, e_wait_start = 2,
                  e_rx = [Rx (21/10) SockTimeout] \<rparr>"

text \<open>
  Two probes; during the first turn the acknowledgment of probe 2 arrives (at 0.5) before
  that of probe 1 (at 0.7), and nothing arrives during the second turn, whose probe is sent
  at 2.
\<close>

definition early_env :: "int \<Rightarrow> probe_env" where
  "early_env seq =
     (if seq = 1 then
        \<lparr> e_send_wall = 100, e_send_perf = 0, e_send_ok = True, e_wait_start = 0,
          e_rx = [Rx (1/10) (Datagram (ack_of 2 (1004/10)) (1/2) (201/2)),
                  Rx (6/10) (Datagram (ack_of 1 (1001/10)) (7/10) (1007/10))] \<rparr>
      else quiet_turn)"

subsection \<open>A loss-free network between the UDP client and the UDP server\<close>

text \<open>The probe as the client builds it, with the decimal rendering of \<open>seq\<close> in the text.\<close>

fun decimal :: "nat \<Rightarrow> string" where
  "decimal n = (if n < 10 then [char_of (48 + n)] else decimal (n div 10) @ [char_of (48 + n mod 10)])"

definition probe_msg :: "int \<Rightarrow> real \<Rightarrow> json" where
  "probe_msg seq send_ts =
     JObj [(''seq'', JInt seq), (''send_ts'', JFloat send_ts),
           (''msg'', JStr (''Hello '' @ (if seq < 0 then ''-'' else []) @ decimal (nat \<bar>seq\<bar>)))]"

text \<open>The datagram in which the probe of \<open>seq\<close>, sent at time \<open>2 * seq\<close>, reaches the server.\<close>

definition probe_dgram :: "int \<Rightarrow> dgram" where
  "probe_dgram seq =
     \<lparr> d_data = Some (probe_msg seq (1000 + 2 * real_of_int seq)), d_addr = (''client'', 40000),
       d_recv_ts = 1000 + 2 * real_of_int seq + 5 / 1000 \<rparr>"

definition no_rng :: "unit \<Rightarrow> real \<times> unit" where
  "no_rng g = (0, g)"

text \<open>
  The turn of \<open>seq\<close> when nothing is lost or late on the way: the probe is sent at time
  \<open>2 * seq\<close> and reaches the server \<open>sa\<close>, which runs without the probabilistic model
  (the generator is never asked); when the server answers, the acknowledgment arrives a
  hundredth of a second after the send, and otherwise the socket times out.
\<close>

definition lossless_turn :: "server_args \<Rightarrow> int \<Rightarrow> probe_env" where
  "lossless_turn sa seq =
     (let t = 2 * real_of_int seq
      in \<lparr> e_send_wall = 1000 + t, e_send_perf = t, e_send_ok = True, e_wait_start = t,
           e_rx = (case snd (serve_one no_rng sa (probe_dgram seq) (0, ())) of
                     AckTo ack to \<Rightarrow>
                       [Rx (t + 1 / 1000) (Datagram (Some ack) (t + 1 / 100) (1000 + t + 1 / 100))]
                   | _ \<Rightarrow> [Rx (t + 1 / 1000) SockTimeout]) \<rparr>)"

definition drop3 :: server_args where
  "drop3 = \<lparr> s_host = ''0.0.0.0'', s_port = 50995, s_loss_prob = 0, s_drop_k = 3,
             s_seed = 32101211950, s_verbose = False \<rparr>"

definition ten :: client_args where
  "ten = \<lparr> a_n = 10, a_timeout = 1, a_seed = 32101211950, a_verbose = False \<rparr>"

subsection \<open>Runs of the UDP server\<close>

text \<open>
  A small generator for the examples, and two runs with the same seed and probability that
  differ in the bind address, verbosity, the probes' other fields, their times and senders,
  and in a malformed datagram that only the first run receives.
\<close>

definition toy_seed :: "int \<Rightarrow> nat" where
  "toy_seed s = nat \<bar>s\<bar>"

definition toy_rng :: "nat \<Rightarrow> real \<times> nat" where
  "toy_rng g = (real ((3 * g + 1) mod 7) / 7, (3 * g + 1) mod 7)"

definition half_a :: server_args where
  "half_a = \<lparr> s_host = ''0.0.0.0'', s_port = 50995, s_loss_prob = 1 / 2, s_drop_k = 0,
              s_seed = 5, s_verbose = False \<rparr>"

definition half_b :: server_args where
  "half_b = \<lparr> s_host = ''127.0.0.1'', s_port = 50996, s_loss_prob = 1 / 2, s_drop_k = 0,
              s_seed = 5, s_verbose = True \<rparr>"

definition run_a :: "dgram list" where
  "run_a = [probe_dgram 1, \<lparr> d_data = None, d_addr = (''other'', 9), d_recv_ts = 1003 \<rparr>,
            probe_dgram 2, probe_dgram 3, probe_dgram 4]"

definition run_b :: "dgram list" where
  "run_b = map (\<lambda>seq. \<lparr> d_data = Some (JObj [(''seq'', JInt seq)]), d_addr = (''peer'', 1),
                        d_recv_ts = 5 \<rparr>) [1, 2, 3, 4]"

definition both_on :: server_args where
  "both_on = \<lparr> s_host = ''0.0.0.0'', s_port = 50995, s_loss_prob = 1 / 10, s_drop_k = 3,
               s_seed = 5, s_verbose = False \<rparr>"

subsection \<open>Sessions of the TCP client\<close>

text \<open>One probe over TCP.\<close>

definition tcp_one :: tcp_args where
  "tcp_one = \<lparr> ta_n = 1, ta_verbose = False \<rparr>"

text \<open>Its acknowledgment carries a server time before the send time.\<close>

definition behind_env :: "int \<Rightarrow> tcp_env" where
  "behind_env seq = \<lparr> te_send_ts = 1000, te_io = RecvData (ack_of seq 999) (10001/10) \<rparr>"

text \<open>One probe over TCP that is acknowledged after fifty milliseconds.\<close>

definition prompt_env :: "int \<Rightarrow> tcp_env" where
  "prompt_env seq = \<lparr> te_send_ts = 1000, te_io = RecvData (ack_of seq (20001 / 20)) (10001 / 10) \<rparr>"

text \<open>It is acknowledged by an object without \<^verbatim>\<open>server_recv_ts\<close>.\<close>

definition bare_ack_env :: tcp_env where
  "bare_ack_env = \<lparr> te_send_ts = 1000, te_io = RecvData (Some (JObj [(''seq'', JInt 1)])) (20001 / 20) \<rparr>"

text \<open>The line that comes back is the empty JSON array.\<close>

definition array_env :: "int \<Rightarrow> tcp_env" where
  "array_env seq = \<lparr> te_send_ts = 1000, te_io = RecvData (Some (JArr [])) (20001 / 20) \<rparr>"

text \<open>
  Five probes over TCP; the second runs into the timeout; for the third \<^verbatim>\<open>recv\<close> fails
  (the connection was reset) in the one session and returns a line that is not JSON in the
  other.
\<close>

definition tcp_five :: tcp_args where
  "tcp_five = \<lparr> ta_n = 5, ta_verbose = False \<rparr>"

definition reset_env :: "int \<Rightarrow> tcp_env" where
  "reset_env seq =
     \<lparr> te_send_ts = 1000 + real_of_int seq,
       te_io = (if seq = 2 then RecvTimeout
                else if seq = 3 then RecvBroken
                else RecvData (ack_of seq (1000 + real_of_int seq + 1 / 20))
                       (1000 + real_of_int seq + 1 / 10)) \<rparr>"


section \<open>The probe loop of the UDP client\<close>

subsection \<open>A finalized sequence number keeps its rows\<close>

lemma finalize_idem: "seq \<in> finalized st \<Longrightarrow> finalize seq oc st = st"
  by (simp add: finalize_def)

lemma finalize_fresh:
  "seq \<notin> finalized st \<Longrightarrow>
     \<exists>r. log_rows (finalize seq oc st) = log_rows st @ [r] \<and> r_seq r = seq \<and> r_outcome r = oc"
  by (auto simp: finalize_def Let_def split: option.splits)

lemma finalize_fields [simp]:
  "finalized (finalize seq oc st) = insert seq (finalized st)"
  "seen_seqs (finalize seq oc st) = seen_seqs st"
  "sent_count (finalize seq oc st) = sent_count st"
  "ack_count (finalize seq oc st) = ack_count st"
  "send_perf (finalize seq oc st) = send_perf st"
  "send_wall (finalize seq oc st) = send_wall st"
  "ack_perf (finalize seq oc st) = ack_perf st"
  "ack_wall (finalize seq oc st) = ack_wall st"
  by (auto simp: finalize_def Let_def)

lemma say_fields [simp]:
  "finalized (say v c st) = finalized st"
  "seen_seqs (say v c st) = seen_seqs st"
  "sent_count (say v c st) = sent_count st"
  "ack_count (say v c st) = ack_count st"
  "send_perf (say v c st) = send_perf st"
  "send_wall (say v c st) = send_wall st"
  "ack_perf (say v c st) = ack_perf st"
  "ack_wall (say v c st) = ack_wall st"
  "log_rows (say v c st) = log_rows st"
  by (auto simp: say_def)

lemma observe_fields [simp]:
  "finalized (observe v s tp tw st) = finalized st"
  "seen_seqs (observe v s tp tw st) = seen_seqs st"
  "sent_count (observe v s tp tw st) = sent_count st"
  "ack_count (observe v s tp tw st) = ack_count st"
  "send_perf (observe v s tp tw st) = send_perf st"
  "send_wall (observe v s tp tw st) = send_wall st"
  "log_rows (observe v s tp tw st) = log_rows st"
  by (auto simp: observe_def Let_def split: option.splits)

lemma rows_of_say [simp]: "rows_of seq (say v c st) = rows_of seq st"
  by (simp add: rows_of_def)

lemma rows_of_observe [simp]: "rows_of seq (observe v s tp tw st) = rows_of seq st"
  by (simp add: rows_of_def)

lemma rows_of_finalize_done:
  "seq \<in> finalized st \<Longrightarrow> rows_of seq (finalize cur oc st) = rows_of seq st"
  by (cases "cur \<in> finalized st") (auto simp: finalize_def rows_of_def Let_def split: option.splits)

lemma rows_of_ack_count [simp]: "rows_of seq (st\<lparr> ack_count := k \<rparr>) = rows_of seq st"
  by (simp add: rows_of_def)

lemma on_datagram_keeps:
  assumes "seq \<in> finalized st"
  shows "rows_of seq (fst (on_datagram v cur m tp tw st)) = rows_of seq st
       \<and> seq \<in> finalized (fst (on_datagram v cur m tp tw st))"
  using assms
  by (simp add: on_datagram_def Let_def rows_of_finalize_done split: sum.splits)

lemma wait_loop_keeps:
  "seq \<in> finalized st \<Longrightarrow>
     rows_of seq (fst (wait_loop v cur d steps st)) = rows_of seq st
     \<and> seq \<in> finalized (fst (wait_loop v cur d steps st))"
proof (induction steps arbitrary: st)
  case Nil
  then show ?case by simp
next
  case (Cons x steps)
  obtain now r where x: "x = Rx now r" by (cases x)
  show ?case
  proof (cases r)
    case SockTimeout
    with x Cons.prems show ?thesis by simp
  next
    case RecvFails
    with x Cons.prems Cons.IH [of "say v RxError st"] show ?thesis by simp
  next
    case (Datagram m tp tw)
    obtain st' g where od: "on_datagram v cur m tp tw st = (st', g)" by fastforce
    from on_datagram_keeps [OF Cons.prems, of v cur m tp tw] od
    have k: "rows_of seq st' = rows_of seq st" "seq \<in> finalized st'" by simp_all
    show ?thesis
    proof (cases g)
      case True
      with x Datagram od k Cons.prems show ?thesis by simp
    next
      case False
      with x Datagram od k Cons.prems Cons.IH [OF k(2)] show ?thesis by simp
    qed
  qed
qed

lemma after_wait_keeps:
  "seq \<in> finalized st \<Longrightarrow>
     rows_of seq (after_wait v cur (st, g)) = rows_of seq st
     \<and> seq \<in> finalized (after_wait v cur (st, g))"
  by (simp add: after_wait_def rows_of_finalize_done)

lemma probe_turn_keeps:
  assumes "seq \<in> finalized st" "probe_turn a e cur st = Inr st'"
  shows "rows_of seq st' = rows_of seq st \<and> seq \<in> finalized st'"
proof -
  let ?st2 = "say (a_verbose a) (Sent cur)
      (st\<lparr> seen_seqs := insert cur (seen_seqs st),
           send_perf := (send_perf st)(cur \<mapsto> e_send_perf e),
           send_wall := (send_wall st)(cur \<mapsto> e_send_wall e),
           sent_count := sent_count st + 1 \<rparr>)"
  let ?w = "wait_loop (a_verbose a) cur (e_wait_start e + a_timeout a) (e_rx e) ?st2"
  from assms(2) have st': "st' = after_wait (a_verbose a) cur ?w"
    by (simp add: probe_turn_def Let_def split: if_splits)
  have a: "seq \<in> finalized ?st2" "rows_of seq ?st2 = rows_of seq st"
    using assms(1) by (simp_all add: rows_of_def)
  from wait_loop_keeps [OF a(1)] a(2)
  have w: "rows_of seq (fst ?w) = rows_of seq st" "seq \<in> finalized (fst ?w)" by simp_all
  from after_wait_keeps [OF w(2), of "a_verbose a" cur "snd ?w"] w(1) st'
  show ?thesis by simp
qed

lemma client_loop_keeps:
  "seq \<in> finalized st \<Longrightarrow> client_loop a env seqs st = Inr st' \<Longrightarrow>
     rows_of seq st' = rows_of seq st \<and> seq \<in> finalized st'"
proof (induction seqs arbitrary: st)
  case Nil
  then show ?case by simp
next
  case (Cons s seqs)
  from Cons.prems(2) obtain st1 where
    t: "probe_turn a (env s) s st = Inr st1" and l: "client_loop a env seqs st1 = Inr st'"
    by (auto split: sum.splits)
  from probe_turn_keeps [OF Cons.prems(1) t] Cons.IH [OF _ l] show ?case by simp
qed

subsection \<open>What a receive loop and a turn do\<close>

lemma log_rows_finalize:
  "log_rows (finalize seq oc st) =
     (if seq \<in> finalized st then log_rows st else log_rows st @ [row_for seq oc st])"
  by (simp add: finalize_def row_for_def Let_def split: option.splits)

lemma out_finalize [simp]: "out (finalize seq oc st) = out st"
  by (simp add: finalize_def Let_def)

lemma row_for_cong:
  "send_wall st seq = send_wall st' seq \<Longrightarrow> ack_wall st seq = ack_wall st' seq \<Longrightarrow>
   send_perf st seq = send_perf st' seq \<Longrightarrow> ack_perf st seq = ack_perf st' seq \<Longrightarrow>
   row_for seq oc st = row_for seq oc st'"
  by (simp add: row_for_def)

lemma store_le_refl [simp]: "store_le st st"
  by (simp add: store_le_def)

lemma store_le_trans: "store_le a b \<Longrightarrow> store_le b c \<Longrightarrow> store_le a c"
  by (auto simp: store_le_def)

lemma store_le_observe: "store_le st (observe v s tp tw st)"
  by (auto simp: store_le_def observe_def Let_def say_def split: option.splits)

lemma store_le_eq:
  "ack_perf st' = ack_perf st \<Longrightarrow> ack_wall st' = ack_wall st \<Longrightarrow> store_le st st'"
  by (simp add: store_le_def)

lemma observe_stores:
  "ack_perf (observe v s tp tw st) s \<noteq> None"
  by (auto simp: observe_def Let_def say_def split: option.splits)

lemma observe_other:
  "s' \<noteq> s \<Longrightarrow> ack_perf (observe v s tp tw st) s' = ack_perf st s'
     \<and> ack_wall (observe v s tp tw st) s' = ack_wall st s'"
  by (auto simp: observe_def Let_def say_def split: option.splits)

lemma on_datagram_spec:
  assumes nf: "seq \<notin> finalized st" and od: "on_datagram v seq m tp tw st = (st', g)"
  shows "seen_seqs st' = seen_seqs st \<and> sent_count st' = sent_count st
       \<and> send_perf st' = send_perf st \<and> send_wall st' = send_wall st \<and> store_le st st'
       \<and> (if g then finalized st' = insert seq (finalized st) \<and> ack_count st' = ack_count st + 1
                    \<and> log_rows st' = log_rows st @ [row_for seq ACKED st']
                    \<and> ack_perf st' seq \<noteq> None
               else finalized st' = finalized st \<and> ack_count st' = ack_count st
                    \<and> log_rows st' = log_rows st)"
proof (cases "parse_seq m")
  case (Inl e)
  with od show ?thesis by (auto simp: on_datagram_def store_le_eq)
next
  case (Inr s)
  let ?st1 = "observe v s tp tw st"
  show ?thesis
  proof (cases "s = seq")
    case True
    with Inr od nf have st': "st' = finalize seq ACKED (?st1\<lparr> ack_count := ack_count ?st1 + 1 \<rparr>)"
      and g: "g" by (auto simp: on_datagram_def Let_def)
    have r: "row_for seq ACKED (?st1\<lparr> ack_count := ack_count ?st1 + 1 \<rparr>) = row_for seq ACKED st'"
      unfolding st' by (rule row_for_cong) simp_all
    have le: "store_le st st'"
      using store_le_observe [of st v s tp tw] unfolding st' by (simp add: store_le_def)
    from g nf le r observe_stores [of v seq tp tw st] True show ?thesis
      unfolding st' by (simp add: log_rows_finalize)
  next
    case False
    with Inr od have "st' = ?st1" "\<not> g" by (auto simp: on_datagram_def Let_def)
    then show ?thesis using store_le_observe [of st v s tp tw] by simp
  qed
qed

lemma wait_loop_spec:
  "seq \<notin> finalized st \<Longrightarrow> wait_loop v seq d steps st = (st', g) \<Longrightarrow>
     seen_seqs st' = seen_seqs st \<and> sent_count st' = sent_count st
       \<and> send_perf st' = send_perf st \<and> send_wall st' = send_wall st \<and> store_le st st'
       \<and> (if g then finalized st' = insert seq (finalized st) \<and> ack_count st' = ack_count st + 1
                    \<and> log_rows st' = log_rows st @ [row_for seq ACKED st']
                    \<and> ack_perf st' seq \<noteq> None
               else finalized st' = finalized st \<and> ack_count st' = ack_count st
                    \<and> log_rows st' = log_rows st)"
proof (induction steps arbitrary: st)
  case Nil
  then show ?case by auto
next
  case (Cons x steps)
  obtain now r where x: "x = Rx now r" by (cases x)
  show ?case
  proof (cases "d - now \<le> 0")
    case True
    with x Cons.prems show ?thesis by auto
  next
    case running: False
    show ?thesis
    proof (cases r)
      case SockTimeout
      with x running Cons.prems show ?thesis by auto
    next
      case RecvFails
      with x running Cons.prems have w: "wait_loop v seq d steps (say v RxError st) = (st', g)" by simp
      have "seq \<notin> finalized (say v RxError st)" using Cons.prems(1) by simp
      from Cons.IH [OF this w] show ?thesis by (simp add: store_le_def)
    next
      case (Datagram m tp tw)
      obtain st1 g1 where od: "on_datagram v seq m tp tw st = (st1, g1)" by fastforce
      note s1 = on_datagram_spec [OF Cons.prems(1) od]
      show ?thesis
      proof (cases g1)
        case True
        with x running Datagram od Cons.prems(2) have "st' = st1" "g = g1" by simp_all
        with s1 show ?thesis by simp
      next
        case False
        with x running Datagram od Cons.prems(2) have w: "wait_loop v seq d steps st1 = (st', g)" by simp
        from False s1 Cons.prems(1) have nf: "seq \<notin> finalized st1" by simp
        note s2 = Cons.IH [OF nf w]
        from s1 s2 have le: "store_le st st'" by (blast intro: store_le_trans)
        from False s1 s2 le show ?thesis by (cases g) simp_all
      qed
    qed
  qed
qed

subsection \<open>The invariant of the loop\<close>

lemma row_for_stable:
  assumes "store_le st st'" "send_perf st' s = send_perf st s" "send_wall st' s = send_wall st s"
    "oc = ACKED \<longrightarrow> ack_perf st s \<noteq> None"
  shows "row_for s oc st' = row_for s oc st"
  using assms by (cases oc) (auto simp: row_for_def store_le_def)

lemma row_for_sel [simp]:
  "r_seq (row_for s oc st) = s" "r_outcome (row_for s oc st) = oc"
  by (simp_all add: row_for_def)

lemma probe_turn_spec:
  assumes ns: "seq \<notin> seen_seqs st" and nf: "seq \<notin> finalized st" and ok: "e_send_ok e"
  shows "\<exists>st' oc. probe_turn a e seq st = Inr st'
       \<and> log_rows st' = log_rows st @ [row_for seq oc st']
       \<and> finalized st' = insert seq (finalized st)
       \<and> seen_seqs st' = insert seq (seen_seqs st)
       \<and> sent_count st' = Suc (sent_count st)
       \<and> ack_count st' = ack_count st + (if oc = ACKED then 1 else 0)
       \<and> send_perf st' = (send_perf st)(seq \<mapsto> e_send_perf e)
       \<and> send_wall st' = (send_wall st)(seq \<mapsto> e_send_wall e)
       \<and> store_le st st'
       \<and> (oc = ACKED \<longleftrightarrow> ack_perf st' seq \<noteq> None)"
proof -
  let ?v = "a_verbose a"
  let ?st2 = "say ?v (Sent seq)
      (st\<lparr> seen_seqs := insert seq (seen_seqs st),
           send_perf := (send_perf st)(seq \<mapsto> e_send_perf e),
           send_wall := (send_wall st)(seq \<mapsto> e_send_wall e),
           sent_count := sent_count st + 1 \<rparr>)"
  obtain st3 g where w: "wait_loop ?v seq (e_wait_start e + a_timeout a) (e_rx e) ?st2 = (st3, g)"
    by fastforce
  have pt: "probe_turn a e seq st = Inr (after_wait ?v seq (st3, g))"
    using ns ok w by (simp add: probe_turn_def Let_def)
  have nf2: "seq \<notin> finalized ?st2" using nf by simp
  note s = wait_loop_spec [OF nf2 w]
  have le2: "store_le st ?st2" by (simp add: store_le_def)
  from s le2 have le3: "store_le st st3" by (blast intro: store_le_trans)
  show ?thesis
  proof (cases g)
    case True
    then have "after_wait ?v seq (st3, g) = st3" by (simp add: after_wait_def)
    with pt s True le3 show ?thesis
      by (intro exI [of _ st3] exI [of _ ACKED]) simp
  next
    case False
    with s nf have nf3: "seq \<notin> finalized st3" by simp
    show ?thesis
    proof (cases "ack_perf st3 seq")
      case None
      let ?st' = "say ?v (TimedOut seq) (finalize seq TIMEOUT st3)"
      have aw: "after_wait ?v seq (st3, g) = ?st'"
        using False nf3 None by (simp add: after_wait_def)
      have r: "row_for seq TIMEOUT st3 = row_for seq TIMEOUT ?st'"
        by (rule row_for_cong) simp_all
      have le: "store_le st ?st'" using le3 by (simp add: store_le_def)
      show ?thesis
        using pt aw s False nf3 None le r
        by (intro exI [of _ ?st'] exI [of _ TIMEOUT]) (simp add: log_rows_finalize)
    next
      case (Some ap)
      let ?st' = "finalize seq ACKED (st3\<lparr> ack_count := ack_count st3 + 1 \<rparr>)"
      have aw: "after_wait ?v seq (st3, g) = ?st'"
        using False nf3 Some by (simp add: after_wait_def)
      have r: "row_for seq ACKED (st3\<lparr> ack_count := ack_count st3 + 1 \<rparr>) = row_for seq ACKED ?st'"
        by (rule row_for_cong) simp_all
      have le: "store_le st ?st'" using le3 by (simp add: store_le_def)
      show ?thesis
        using pt aw s False nf3 Some le r
        by (intro exI [of _ ?st'] exI [of _ ACKED]) (simp add: log_rows_finalize)
    qed
  qed
qed

lemma consistent_init: "consistent init_state"
  by (simp add: consistent_def init_state_def acked_rows_def)

lemma probe_turn_consistent:
  assumes c: "consistent st" and ns: "seq \<notin> seen_seqs st" and ok: "e_send_ok e"
  shows "\<exists>st'. probe_turn a e seq st = Inr st' \<and> consistent st'
       \<and> map r_seq (log_rows st') = map r_seq (log_rows st) @ [seq]
       \<and> seen_seqs st' = insert seq (seen_seqs st)
       \<and> sent_count st' = Suc (sent_count st)
       \<and> store_le st st'"
proof -
  from c ns have nf: "seq \<notin> finalized st" by (auto simp: consistent_def)
  from probe_turn_spec [OF ns nf ok, of a] obtain st' oc where
    pt: "probe_turn a e seq st = Inr st'"
    and lr: "log_rows st' = log_rows st @ [row_for seq oc st']"
    and fi: "finalized st' = insert seq (finalized st)"
    and se: "seen_seqs st' = insert seq (seen_seqs st)"
    and sc: "sent_count st' = Suc (sent_count st)"
    and ac: "ack_count st' = ack_count st + (if oc = ACKED then 1 else 0)"
    and sp: "send_perf st' = (send_perf st)(seq \<mapsto> e_send_perf e)"
    and sw: "send_wall st' = (send_wall st)(seq \<mapsto> e_send_wall e)"
    and le: "store_le st st'"
    and oc: "oc = ACKED \<longleftrightarrow> ack_perf st' seq \<noteq> None"
    by blast
  have old: "r = row_for (r_seq r) (r_outcome r) st'
       \<and> (r_outcome r = ACKED \<longrightarrow> ack_perf st' (r_seq r) \<noteq> None)"
    if r: "r \<in> set (log_rows st)" for r
  proof -
    from c r have r1: "r = row_for (r_seq r) (r_outcome r) st"
      and r2: "r_outcome r = ACKED \<longrightarrow> ack_perf st (r_seq r) \<noteq> None"
      and r3: "r_seq r \<in> finalized st" by (auto simp: consistent_def)
    from r3 nf have ne: "r_seq r \<noteq> seq" by auto
    have "row_for (r_seq r) (r_outcome r) st' = row_for (r_seq r) (r_outcome r) st"
      by (rule row_for_stable [OF le _ _ r2]) (simp_all add: sp sw ne)
    with r1 r2 le show ?thesis by (auto simp: store_le_def)
  qed
  have "consistent st'"
    unfolding consistent_def
  proof (intro conjI ballI)
    show "finalized st' \<subseteq> seen_seqs st'" using c fi se by (auto simp: consistent_def)
    show "finalized st' = set (map r_seq (log_rows st'))" using c fi lr by (auto simp: consistent_def)
    show "distinct (map r_seq (log_rows st'))" using c lr nf by (auto simp: consistent_def)
    show "ack_count st' = length (acked_rows st')" using c ac lr
      by (auto simp: consistent_def acked_rows_def)
  next
    fix r assume "r \<in> set (log_rows st')"
    with lr have "r \<in> set (log_rows st) \<or> r = row_for seq oc st'" by auto
    then show "r = row_for (r_seq r) (r_outcome r) st'"
      using old by auto
  next
    fix r assume "r \<in> set (log_rows st')"
    with lr have "r \<in> set (log_rows st) \<or> r = row_for seq oc st'" by auto
    then show "r_outcome r = ACKED \<longrightarrow> ack_perf st' (r_seq r) \<noteq> None"
      using old oc by auto
  qed
  with pt lr se sc le show ?thesis by simp
qed

lemma client_loop_consistent:
  "consistent st \<Longrightarrow> distinct seqs \<Longrightarrow> set seqs \<inter> seen_seqs st = {} \<Longrightarrow>
   \<forall>s \<in> set seqs. e_send_ok (env s) \<Longrightarrow>
     \<exists>st'. client_loop a env seqs st = Inr st' \<and> consistent st'
       \<and> map r_seq (log_rows st') = map r_seq (log_rows st) @ seqs
       \<and> seen_seqs st' = seen_seqs st \<union> set seqs
       \<and> sent_count st' = sent_count st + length seqs
       \<and> store_le st st'"
proof (induction seqs arbitrary: st)
  case Nil
  then show ?case by simp
next
  case (Cons s seqs)
  from Cons.prems have ns: "s \<notin> seen_seqs st" and ok: "e_send_ok (env s)" by auto
  from probe_turn_consistent [OF Cons.prems(1) ns ok, of a] obtain st1 where
    pt: "probe_turn a (env s) s st = Inr st1" and c1: "consistent st1"
    and lr: "map r_seq (log_rows st1) = map r_seq (log_rows st) @ [s]"
    and se: "seen_seqs st1 = insert s (seen_seqs st)"
    and sc: "sent_count st1 = Suc (sent_count st)"
    and le: "store_le st st1" by blast
  from Cons.prems se have d: "distinct seqs" and dj: "set seqs \<inter> seen_seqs st1 = {}"
    and oks: "\<forall>s \<in> set seqs. e_send_ok (env s)" by auto
  from Cons.IH [OF c1 d dj oks] obtain st' where
    cl: "client_loop a env seqs st1 = Inr st'" and c': "consistent st'"
    and lr': "map r_seq (log_rows st') = map r_seq (log_rows st1) @ seqs"
    and se': "seen_seqs st' = seen_seqs st1 \<union> set seqs"
    and sc': "sent_count st' = sent_count st1 + length seqs"
    and le': "store_le st1 st'" by blast
  from le le' have "store_le st st'" by (rule store_le_trans)
  with pt cl c' lr lr' se se' sc sc' show ?case by auto
qed

lemma client_run_consistent:
  assumes "\<forall>s \<in> {1 .. a_n a}. e_send_ok (env s)"
  shows "\<exists>st. client_run a env = Inr st \<and> consistent st
       \<and> map r_seq (log_rows st) = [1 .. a_n a]
       \<and> sent_count st = nat (a_n a)"
  using client_loop_consistent [OF consistent_init, of "[1 .. a_n a]" env a] assms
  by (auto simp: client_run_def init_state_def)

text \<open>
  Claim C1. In a session in which every send succeeds the log ends with exactly one row for
  each sequence number 1..N, in this order. Once a sequence number is in the finalized set,
  a further call of \<open>finalize\<close> for it returns the state as it is, and neither an
  acknowledgment that comes in (for it or for any other number, whatever number is awaited),
  nor a whole receive loop, nor any number of later probe turns changes its rows of the log.
\<close>

theorem finalized_exactly_once:
  assumes sends: "\<forall>s \<in> {1 .. a_n a}. e_send_ok (env s)" and fin: "seq \<in> finalized st"
  shows "(\<exists>st'. client_run a env = Inr st' \<and> map r_seq (log_rows st') = [1 .. a_n a])
       \<and> finalize seq oc st = st
       \<and> rows_of seq (fst (on_datagram v cur m tp tw st)) = rows_of seq st
       \<and> rows_of seq (fst (wait_loop v cur d steps st)) = rows_of seq st
       \<and> (case client_loop a env seqs st of
            Inl e \<Rightarrow> True
          | Inr st' \<Rightarrow> rows_of seq st' = rows_of seq st)"
proof (intro conjI)
  from client_run_consistent [OF sends]
  show "\<exists>st'. client_run a env = Inr st' \<and> map r_seq (log_rows st') = [1 .. a_n a]" by blast
  show "finalize seq oc st = st" using fin by (rule finalize_idem)
  show "rows_of seq (fst (on_datagram v cur m tp tw st)) = rows_of seq st"
    using on_datagram_keeps [OF fin] by simp
  show "rows_of seq (fst (wait_loop v cur d steps st)) = rows_of seq st"
    using wait_loop_keeps [OF fin] by simp
  show "case client_loop a env seqs st of Inl e \<Rightarrow> True | Inr st' \<Rightarrow> rows_of seq st' = rows_of seq st"
    using client_loop_keeps [OF fin] by (simp split: sum.splits)
qed

theorem finalized_exactly_once_witness:
  "(\<exists>st'. client_run two dup_env = Inr st' \<and> map r_seq (log_rows st') = [1, 2])
   \<and> finalize 1 TIMEOUT after_one = after_one
   \<and> rows_of 1 (fst (on_datagram True 2 (ack_of 1 (1001/10)) (22/10) (1022/10) after_one))
       = [\<lparr> r_seq = 1, r_send_ts = Some 100, r_ack_ts = Some (1002/10),
            r_rtt_ms = Some 200, r_outcome = ACKED \<rparr>]"
proof -
  have u: "[1 .. a_n two] = [1, 2]" by (simp add: two_def upto_rec1)
  have s: "\<forall>s \<in> {1 .. a_n two}. e_send_ok (dup_env s)" by (simp add: dup_env_def)
  have f: "(1::int) \<in> finalized after_one" by (simp add: after_one_def)
  have r: "rows_of 1 after_one = [\<lparr> r_seq = 1, r_send_ts = Some 100, r_ack_ts = Some (1002/10),
            r_rtt_ms = Some 200, r_outcome = ACKED \<rparr>]" by (simp add: rows_of_def after_one_def)
  from finalized_exactly_once [OF s f, of TIMEOUT True 2 "ack_of 1 (1001/10)" "22/10" "1022/10" 0 "[]" "[]"]
  show ?thesis by (simp add: u r)
qed

subsection \<open>The first observation is kept and used\<close>

lemma observe_again: "ack_perf st s \<noteq> None \<Longrightarrow> observe v s tp tw st = st"
  by (auto simp: observe_def)

lemma observe_first:
  "ack_perf st s = None \<Longrightarrow>
     ack_perf (observe v s tp tw st) s = Some tp \<and> ack_wall (observe v s tp tw st) s = Some tw"
  by (simp add: observe_def Let_def say_def split: option.splits)

subsection \<open>Where the stored readings come from\<close>

lemma on_datagram_store:
  "ack_perf (fst (on_datagram v cur m tp tw st)) s = ack_perf st s
   \<or> (ack_perf st s = None \<and> parse_seq m = Inr s
      \<and> ack_perf (fst (on_datagram v cur m tp tw st)) s = Some tp)"
proof (cases "parse_seq m")
  case (Inl e)
  then show ?thesis by (simp add: on_datagram_def)
next
  case (Inr s')
  then have a: "ack_perf (fst (on_datagram v cur m tp tw st)) = ack_perf (observe v s' tp tw st)"
    by (simp add: on_datagram_def Let_def)
  show ?thesis
  proof (cases "s' = s \<and> ack_perf st s = None")
    case True
    with a Inr observe_first [of st s v tp tw] show ?thesis by simp
  next
    case False
    have "ack_perf (observe v s' tp tw st) s = ack_perf st s"
    proof (cases "s' = s")
      case True
      with False have "ack_perf st s' \<noteq> None" by simp
      from observe_again [OF this] True show ?thesis by simp
    next
      case ne: False
      then have "s \<noteq> s'" by simp
      from observe_other [OF this] show ?thesis by simp
    qed
    with a show ?thesis by simp
  qed
qed

lemma wait_loop_store:
  "ack_perf (fst (wait_loop v cur d steps st)) s = ack_perf st s
   \<or> (ack_perf st s = None
      \<and> (\<exists>tp. (s, tp) \<in> set (acks_in steps) \<and> ack_perf (fst (wait_loop v cur d steps st)) s = Some tp))"
proof (induction steps arbitrary: st)
  case Nil
  then show ?case by simp
next
  case (Cons x steps)
  obtain now r where x: "x = Rx now r" by (cases x)
  show ?case
  proof (cases r)
    case SockTimeout
    with x show ?thesis by simp
  next
    case RecvFails
    with x Cons.IH [of "say v RxError st"] show ?thesis by auto
  next
    case (Datagram m tp tw)
    obtain st1 g where od: "on_datagram v cur m tp tw st = (st1, g)" by fastforce
    from on_datagram_store [of v cur m tp tw st s] od
    have 1: "ack_perf st1 s = ack_perf st s
        \<or> (ack_perf st s = None \<and> parse_seq m = Inr s \<and> ack_perf st1 s = Some tp)" by simp
    show ?thesis
    proof (cases g)
      case True
      with x Datagram od 1 show ?thesis by auto
    next
      case False
      from Cons.IH [of st1]
      have 2: "ack_perf (fst (wait_loop v cur d steps st1)) s = ack_perf st1 s
          \<or> (ack_perf st1 s = None
             \<and> (\<exists>tp. (s, tp) \<in> set (acks_in steps)
                   \<and> ack_perf (fst (wait_loop v cur d steps st1)) s = Some tp))" .
      show ?thesis
      proof (cases "d - now \<le> 0")
        case True
        with x show ?thesis by simp
      next
        case running: False
        with x Datagram od False
        have w: "wait_loop v cur d (x # steps) st = wait_loop v cur d steps st1" by simp
        from 1 2 show ?thesis unfolding w using x Datagram by (auto split: sum.splits)
      qed
    qed
  qed
qed

lemma probe_turn_store:
  assumes "probe_turn a e cur st = Inr st'"
  shows "ack_perf st' s = ack_perf st s
       \<or> (ack_perf st s = None \<and> (\<exists>tp. (s, tp) \<in> set (acks_in (e_rx e)) \<and> ack_perf st' s = Some tp))"
proof -
  let ?st2 = "say (a_verbose a) (Sent cur)
      (st\<lparr> seen_seqs := insert cur (seen_seqs st),
           send_perf := (send_perf st)(cur \<mapsto> e_send_perf e),
           send_wall := (send_wall st)(cur \<mapsto> e_send_wall e),
           sent_count := sent_count st + 1 \<rparr>)"
  let ?w = "wait_loop (a_verbose a) cur (e_wait_start e + a_timeout a) (e_rx e) ?st2"
  from assms have st': "st' = after_wait (a_verbose a) cur ?w"
    by (simp add: probe_turn_def Let_def split: if_splits)
  have "ack_perf (after_wait (a_verbose a) cur ?w) = ack_perf (fst ?w)"
    by (cases ?w) (simp add: after_wait_def)
  with st' have "ack_perf st' = ack_perf (fst ?w)" by simp
  with wait_loop_store [of "a_verbose a" cur "e_wait_start e + a_timeout a" "e_rx e" ?st2 s]
  show ?thesis by simp
qed

lemma probe_turn_sends: "probe_turn a e seq st = Inr st' \<Longrightarrow> seq \<notin> seen_seqs st \<and> e_send_ok e"
  by (simp add: probe_turn_def Let_def split: if_splits)

subsection \<open>The wall clock does not reach the round-trip times\<close>

lemma finalize_view:
  "mono_view st = mono_view st' \<Longrightarrow>
     mono_view (finalize seq oc st) = mono_view (finalize seq oc st')"
  by (auto simp: mono_view_def finalize_def Let_def split: option.splits)

lemma say_view:
  "mono_view st = mono_view st' \<Longrightarrow> mono_view (say v c st) = mono_view (say v c st')"
  by (simp add: mono_view_def say_def)

lemma observe_view:
  "mono_view st = mono_view st' \<Longrightarrow>
     mono_view (observe v s tp tw st) = mono_view (observe v s tp tw' st')"
  by (auto simp: mono_view_def observe_def Let_def say_def split: option.splits)

lemma count_view:
  "mono_view st = mono_view st' \<Longrightarrow>
     mono_view (st\<lparr> ack_count := ack_count st + 1 \<rparr>) = mono_view (st'\<lparr> ack_count := ack_count st' + 1 \<rparr>)"
  by (simp add: mono_view_def)

lemma view_finalized: "mono_view st = mono_view st' \<Longrightarrow> finalized st = finalized st'"
  by (simp add: mono_view_def)

lemma view_ack_perf: "mono_view st = mono_view st' \<Longrightarrow> ack_perf st = ack_perf st'"
  by (simp add: mono_view_def)

lemma on_datagram_view:
  assumes "mono_view st = mono_view st'"
  shows "mono_view (fst (on_datagram v cur m tp tw st)) = mono_view (fst (on_datagram v cur m tp tw' st'))
       \<and> snd (on_datagram v cur m tp tw st) = snd (on_datagram v cur m tp tw' st')"
proof (cases "parse_seq m")
  case (Inl e)
  with say_view [OF assms] show ?thesis by (simp add: on_datagram_def)
next
  case (Inr s)
  let ?o = "observe v s tp tw st" and ?o' = "observe v s tp tw' st'"
  have o: "mono_view ?o = mono_view ?o'" by (rule observe_view [OF assms])
  have f: "finalized ?o = finalized ?o'" by (rule view_finalized [OF o])
  show ?thesis
  proof (cases "s = cur \<and> cur \<notin> finalized ?o")
    case True
    with f have c: "s = cur \<and> cur \<notin> finalized ?o'" by simp
    have 1: "on_datagram v cur m tp tw st
        = (finalize cur ACKED (?o\<lparr> ack_count := ack_count ?o + 1 \<rparr>), True)"
      using Inr True unfolding on_datagram_def Let_def by simp
    have 2: "on_datagram v cur m tp tw' st'
        = (finalize cur ACKED (?o'\<lparr> ack_count := ack_count ?o' + 1 \<rparr>), True)"
      using Inr c unfolding on_datagram_def Let_def by simp
    show ?thesis unfolding 1 2 fst_conv snd_conv
      using finalize_view [OF count_view [OF o]] by blast
  next
    case False
    with f have c: "\<not> (s = cur \<and> cur \<notin> finalized ?o')" by simp
    have 1: "on_datagram v cur m tp tw st = (?o, False)"
      using Inr False unfolding on_datagram_def Let_def by simp
    have 2: "on_datagram v cur m tp tw' st' = (?o', False)"
      using Inr c unfolding on_datagram_def Let_def by simp
    show ?thesis unfolding 1 2 using o by simp
  qed
qed

lemma wait_loop_view:
  "map mono_step steps = map mono_step steps' \<Longrightarrow> mono_view st = mono_view st' \<Longrightarrow>
     mono_view (fst (wait_loop v cur d steps st)) = mono_view (fst (wait_loop v cur d steps' st'))
     \<and> snd (wait_loop v cur d steps st) = snd (wait_loop v cur d steps' st')"
proof (induction steps arbitrary: steps' st st')
  case Nil
  then show ?case by simp
next
  case (Cons x steps)
  from Cons.prems(1) obtain y rest where s': "steps' = y # rest"
    and xy: "mono_step x = mono_step y" and r: "map mono_step steps = map mono_step rest"
    by (cases steps') auto
  obtain now r1 where x: "x = Rx now r1" by (cases x)
  obtain now' r2 where y: "y = Rx now' r2" by (cases y)
  show ?case
  proof (cases r1)
    case SockTimeout
    with x y xy have "now' = now" "r2 = SockTimeout" by (cases r2; simp)+
    with x y s' SockTimeout Cons.prems(2) show ?thesis by simp
  next
    case RecvFails
    with x y xy have e: "now' = now" "r2 = RecvFails" by (cases r2; simp)+
    from Cons.IH [OF r say_view [OF Cons.prems(2), of v RxError]] x y s' RecvFails e Cons.prems(2)
    show ?thesis by simp
  next
    case (Datagram m tp tw)
    with x y xy obtain tw' where e: "now' = now" "r2 = Datagram m tp tw'" by (cases r2) auto
    obtain st1 g where od: "on_datagram v cur m tp tw st = (st1, g)" by fastforce
    obtain st1' g' where od': "on_datagram v cur m tp tw' st' = (st1', g')" by fastforce
    from on_datagram_view [OF Cons.prems(2), of v cur m tp tw tw'] od od'
    have v1: "mono_view st1 = mono_view st1'" and g: "g' = g" by simp_all
    show ?thesis
    proof (cases g)
      case True
      with x y s' Datagram e od od' g v1 Cons.prems(2) show ?thesis by simp
    next
      case False
      with Cons.IH [OF r v1] x y s' Datagram e od od' g Cons.prems(2)
      show ?thesis by simp
    qed
  qed
qed

lemma after_wait_view:
  assumes "mono_view st = mono_view st'"
  shows "mono_view (after_wait v cur (st, g)) = mono_view (after_wait v cur (st', g))"
proof -
  note f = view_finalized [OF assms] and a = view_ack_perf [OF assms]
  from f a finalize_view [OF count_view [OF assms], of cur ACKED]
    say_view [OF finalize_view [OF assms, of cur TIMEOUT], of v "TimedOut cur"] assms
  show ?thesis by (simp add: after_wait_def)
qed

lemma mono_env_fields:
  assumes "mono_env e = mono_env e'"
  shows "e_send_perf e = e_send_perf e'" "e_send_ok e = e_send_ok e'"
    "e_wait_start e = e_wait_start e'" "map mono_step (e_rx e) = map mono_step (e_rx e')"
proof -
  from assms have "e_send_perf (mono_env e) = e_send_perf (mono_env e')"
    "e_send_ok (mono_env e) = e_send_ok (mono_env e')"
    "e_wait_start (mono_env e) = e_wait_start (mono_env e')"
    "e_rx (mono_env e) = e_rx (mono_env e')" by simp_all
  then show "e_send_perf e = e_send_perf e'" "e_send_ok e = e_send_ok e'"
    "e_wait_start e = e_wait_start e'" "map mono_step (e_rx e) = map mono_step (e_rx e')"
    by (simp_all add: mono_env_def)
qed

lemma probe_turn_view:
  assumes v: "mono_view st = mono_view st'" and e: "mono_env e = mono_env e'"
    and t: "probe_turn a e cur st = Inr st1"
  shows "\<exists>st1'. probe_turn a e' cur st' = Inr st1' \<and> mono_view st1 = mono_view st1'"
proof -
  note f = mono_env_fields [OF e]
  let ?st2 = "say (a_verbose a) (Sent cur)
      (st\<lparr> seen_seqs := insert cur (seen_seqs st),
           send_perf := (send_perf st)(cur \<mapsto> e_send_perf e),
           send_wall := (send_wall st)(cur \<mapsto> e_send_wall e),
           sent_count := sent_count st + 1 \<rparr>)"
  let ?st2' = "say (a_verbose a) (Sent cur)
      (st'\<lparr> seen_seqs := insert cur (seen_seqs st'),
           send_perf := (send_perf st')(cur \<mapsto> e_send_perf e'),
           send_wall := (send_wall st')(cur \<mapsto> e_send_wall e'),
           sent_count := sent_count st' + 1 \<rparr>)"
  let ?w = "wait_loop (a_verbose a) cur (e_wait_start e + a_timeout a) (e_rx e) ?st2"
  let ?w' = "wait_loop (a_verbose a) cur (e_wait_start e' + a_timeout a) (e_rx e') ?st2'"
  from t have ns: "cur \<notin> seen_seqs st" and ok: "e_send_ok e"
    and st1: "st1 = after_wait (a_verbose a) cur ?w"
    by (simp_all add: probe_turn_def Let_def split: if_splits)
  from v have se: "seen_seqs st' = seen_seqs st" by (simp add: mono_view_def)
  have t': "probe_turn a e' cur st' = Inr (after_wait (a_verbose a) cur ?w')"
    using ns ok se f(2) by (simp add: probe_turn_def Let_def)
  have v2: "mono_view ?st2 = mono_view ?st2'"
    using v f(1) by (simp add: mono_view_def say_def)
  from wait_loop_view [OF f(4) v2, of "a_verbose a" cur "e_wait_start e + a_timeout a"] f(3)
  have w: "mono_view (fst ?w) = mono_view (fst ?w')" "snd ?w = snd ?w'" by simp_all
  obtain st3 g where p: "?w = (st3, g)" by fastforce
  obtain st3' g' where p': "?w' = (st3', g')" by fastforce
  from w p p' have q: "mono_view st3 = mono_view st3'" "g' = g" by simp_all
  from after_wait_view [OF q(1), of "a_verbose a" cur g] q(2)
  have "mono_view (after_wait (a_verbose a) cur ?w) = mono_view (after_wait (a_verbose a) cur ?w')"
    unfolding p p' by simp
  with t' st1 show ?thesis by simp
qed

lemma client_loop_view:
  "mono_view st = mono_view st' \<Longrightarrow> \<forall>seq. mono_env (env seq) = mono_env (env' seq) \<Longrightarrow>
   client_loop a env seqs st = Inr st1 \<Longrightarrow>
     \<exists>st1'. client_loop a env' seqs st' = Inr st1' \<and> mono_view st1 = mono_view st1'"
proof (induction seqs arbitrary: st st')
  case Nil
  then show ?case by simp
next
  case (Cons s seqs)
  from Cons.prems(3) obtain st2 where
    t: "probe_turn a (env s) s st = Inr st2" and l: "client_loop a env seqs st2 = Inr st1"
    by (auto split: sum.splits)
  from Cons.prems(2) have e: "mono_env (env s) = mono_env (env' s)" by simp
  from probe_turn_view [OF Cons.prems(1) e t] obtain st2' where
    t': "probe_turn a (env' s) s st' = Inr st2'" and v2: "mono_view st2 = mono_view st2'" by blast
  from Cons.IH [OF v2 Cons.prems(2) l] t' show ?case by simp
qed

lemma client_run_view:
  assumes "\<forall>seq. mono_env (env seq) = mono_env (env' seq)" "client_run a env = Inr st"
  shows "\<exists>st'. client_run a env' = Inr st'
       \<and> map r_rtt_ms (log_rows st') = map r_rtt_ms (log_rows st)
       \<and> map r_outcome (log_rows st') = map r_outcome (log_rows st)"
proof -
  from assms(2) have l: "client_loop a env [1 .. a_n a] init_state = Inr st"
    by (simp add: client_run_def)
  from client_loop_view [OF refl assms(1) l] obtain st' where
    l': "client_loop a env' [1 .. a_n a] init_state = Inr st'" and v: "mono_view st = mono_view st'"
    by blast
  from v have m: "map (\<lambda>r. (r_seq r, r_rtt_ms r, r_outcome r)) (log_rows st)
      = map (\<lambda>r. (r_seq r, r_rtt_ms r, r_outcome r)) (log_rows st')" by (simp add: mono_view_def)
  have "map r_rtt_ms (log_rows st') = map r_rtt_ms (log_rows st)"
    using arg_cong [OF m, of "map (\<lambda>p. fst (snd p))"] by (simp add: comp_def)
  moreover have "map r_outcome (log_rows st') = map r_outcome (log_rows st)"
    using arg_cong [OF m, of "map (\<lambda>p. snd (snd p))"] by (simp add: comp_def)
  ultimately show ?thesis using l' by (simp add: client_run_def)
qed

lemma client_loop_readings:
  "client_loop a env seqs st = Inr st' \<Longrightarrow> finalized st \<subseteq> seen_seqs st \<Longrightarrow>
   \<forall>s \<in> seen_seqs st. send_perf st s = Some (e_send_perf (env s)) \<Longrightarrow>
   \<forall>s ap. ack_perf st s = Some ap \<longrightarrow> (\<exists>j \<in> seen_seqs st. (s, ap) \<in> set (acks_in (e_rx (env j)))) \<Longrightarrow>
     (\<forall>s \<in> seen_seqs st'. send_perf st' s = Some (e_send_perf (env s)))
     \<and> (\<forall>s ap. ack_perf st' s = Some ap \<longrightarrow>
           (\<exists>j \<in> seen_seqs st'. (s, ap) \<in> set (acks_in (e_rx (env j)))))"
proof (induction seqs arbitrary: st)
  case Nil
  then show ?case by simp
next
  case (Cons seq rest)
  let ?e = "env seq"
  from Cons.prems(1) obtain st1 where
    t: "probe_turn a ?e seq st = Inr st1" and l: "client_loop a env rest st1 = Inr st'"
    by (auto split: sum.splits)
  from probe_turn_sends [OF t] have ns: "seq \<notin> seen_seqs st" and ok: "e_send_ok ?e" by simp_all
  from ns Cons.prems(2) have nf: "seq \<notin> finalized st" by auto
  from probe_turn_spec [OF ns nf ok, of a] t
  have fi: "finalized st1 = insert seq (finalized st)"
    and se: "seen_seqs st1 = insert seq (seen_seqs st)"
    and sp: "send_perf st1 = (send_perf st)(seq \<mapsto> e_send_perf ?e)"
    by auto
  note store = probe_turn_store [OF t]
  from Cons.prems(2) fi se have sub: "finalized st1 \<subseteq> seen_seqs st1" by auto
  from Cons.prems(3) se sp have sends: "\<forall>s \<in> seen_seqs st1. send_perf st1 s = Some (e_send_perf (env s))"
    by auto
  have acks: "\<forall>s ap. ack_perf st1 s = Some ap \<longrightarrow>
      (\<exists>j \<in> seen_seqs st1. (s, ap) \<in> set (acks_in (e_rx (env j))))"
  proof (intro allI impI)
    fix s ap assume a: "ack_perf st1 s = Some ap"
    from store [of s] show "\<exists>j \<in> seen_seqs st1. (s, ap) \<in> set (acks_in (e_rx (env j)))"
    proof
      assume "ack_perf st1 s = ack_perf st s"
      with a Cons.prems(4) se show ?thesis by auto
    next
      assume "ack_perf st s = None \<and> (\<exists>tp. (s, tp) \<in> set (acks_in (e_rx ?e)) \<and> ack_perf st1 s = Some tp)"
      with a se show ?thesis by auto
    qed
  qed
  from Cons.IH [OF l sub sends acks] show ?case .
qed

subsection \<open>The log is what the first observations give\<close>

lemma stored_observe:
  assumes "stored obs st"
  shows "stored (obs @ [(s, tp, tw)]) (observe v s tp tw st)"
proof (cases "map_of obs s")
  case None
  with assms have n: "ack_perf st s = None" by (simp add: stored_def)
  have p: "ack_perf (observe v s tp tw st) = (ack_perf st)(s \<mapsto> tp)"
    and w: "ack_wall (observe v s tp tw st) = (ack_wall st)(s \<mapsto> tw)"
    using n by (auto simp: observe_def Let_def say_def split: option.splits)
  show ?thesis unfolding stored_def p w using assms None
    by (auto simp: stored_def fun_eq_iff map_add_def split: option.splits)
next
  case (Some x)
  with assms have "ack_perf st s \<noteq> None" by (simp add: stored_def)
  then have "observe v s tp tw st = st" by (rule observe_again)
  with assms Some show ?thesis
    by (auto simp: stored_def fun_eq_iff map_add_def split: option.splits)
qed

lemma stored_cong:
  "stored obs st \<Longrightarrow> ack_perf st' = ack_perf st \<Longrightarrow> ack_wall st' = ack_wall st \<Longrightarrow> stored obs st'"
  by (simp add: stored_def)

lemma wait_loop_stored:
  "cur \<notin> finalized st \<Longrightarrow> stored obs st \<Longrightarrow>
     stored (obs @ read_acks d cur steps) (fst (wait_loop v cur d steps st))"
proof (induction steps arbitrary: st obs)
  case Nil
  then show ?case by simp
next
  case (Cons x steps)
  obtain now r where x: "x = Rx now r" by (cases x)
  show ?case
  proof (cases "d - now \<le> 0")
    case True
    with x Cons.prems show ?thesis by simp
  next
    case running: False
    show ?thesis
    proof (cases r)
      case SockTimeout
      with x running Cons.prems show ?thesis by simp
    next
      case RecvFails
      have "stored obs (say v RxError st)" using Cons.prems(2) by (rule stored_cong) simp_all
      moreover have "cur \<notin> finalized (say v RxError st)" using Cons.prems(1) by simp
      ultimately have "stored (obs @ read_acks d cur steps)
          (fst (wait_loop v cur d steps (say v RxError st)))" by (rule Cons.IH [rotated])
      with x running RecvFails show ?thesis by simp
    next
      case (Datagram m tp tw)
      show ?thesis
      proof (cases "parse_seq m")
        case (Inl e)
        have "stored obs (say v RxError st)" using Cons.prems(2) by (rule stored_cong) simp_all
        moreover have "cur \<notin> finalized (say v RxError st)" using Cons.prems(1) by simp
        ultimately have "stored (obs @ read_acks d cur steps)
            (fst (wait_loop v cur d steps (say v RxError st)))" by (rule Cons.IH [rotated])
        with x running Datagram Inl show ?thesis by (simp add: on_datagram_def)
      next
        case (Inr s)
        let ?o = "observe v s tp tw st"
        note so = stored_observe [OF Cons.prems(2), of s tp tw v]
        have nf: "cur \<notin> finalized ?o" using Cons.prems(1) by simp
        show ?thesis
        proof (cases "s = cur")
          case True
          have od: "on_datagram v cur m tp tw st
              = (finalize cur ACKED (?o\<lparr> ack_count := ack_count ?o + 1 \<rparr>), True)"
            using Inr True nf unfolding on_datagram_def Let_def by simp
          have "stored (obs @ [(s, tp, tw)]) (finalize cur ACKED (?o\<lparr> ack_count := ack_count ?o + 1 \<rparr>))"
            using so by (rule stored_cong) simp_all
          with x running Datagram Inr True od show ?thesis by simp
        next
          case False
          have od: "on_datagram v cur m tp tw st = (?o, False)"
            using Inr False unfolding on_datagram_def Let_def by simp
          from Cons.IH [OF nf so]
          have "stored ((obs @ [(s, tp, tw)]) @ read_acks d cur steps)
              (fst (wait_loop v cur d steps ?o))" .
          with x running Datagram Inr False od show ?thesis by simp
        qed
      qed
    qed
  qed
qed

lemma probe_turn_stored:
  assumes ns: "seq \<notin> seen_seqs st" and nf: "seq \<notin> finalized st" and ok: "e_send_ok e"
    and so: "stored obs st" and pt: "probe_turn a e seq st = Inr st'"
  shows "stored (obs @ read_acks (e_wait_start e + a_timeout a) seq (e_rx e)) st'"
proof -
  let ?v = "a_verbose a"
  let ?st2 = "say ?v (Sent seq)
      (st\<lparr> seen_seqs := insert seq (seen_seqs st),
           send_perf := (send_perf st)(seq \<mapsto> e_send_perf e),
           send_wall := (send_wall st)(seq \<mapsto> e_send_wall e),
           sent_count := sent_count st + 1 \<rparr>)"
  let ?w = "wait_loop ?v seq (e_wait_start e + a_timeout a) (e_rx e) ?st2"
  from pt ns ok have st': "st' = after_wait ?v seq ?w"
    by (simp add: probe_turn_def Let_def)
  have s2: "stored obs ?st2" using so by (rule stored_cong) simp_all
  have nf2: "seq \<notin> finalized ?st2" using nf by simp
  from wait_loop_stored [OF nf2 s2]
  have w: "stored (obs @ read_acks (e_wait_start e + a_timeout a) seq (e_rx e)) (fst ?w)" .
  have "ack_perf (after_wait ?v seq ?w) = ack_perf (fst ?w)"
    "ack_wall (after_wait ?v seq ?w) = ack_wall (fst ?w)"
    by (cases ?w; simp add: after_wait_def)+
  with w show ?thesis unfolding st' by (simp add: stored_def)
qed

lemma client_loop_expected:
  "stored obs st \<Longrightarrow> finalized st \<subseteq> seen_seqs st \<Longrightarrow> distinct seqs \<Longrightarrow>
   set seqs \<inter> seen_seqs st = {} \<Longrightarrow> \<forall>s \<in> set seqs. e_send_ok (env s) \<Longrightarrow>
     \<exists>st'. client_loop a env seqs st = Inr st'
       \<and> log_rows st' = log_rows st @ expected_from a env obs seqs
       \<and> stored (obs @ observed a env seqs) st'"
proof (induction seqs arbitrary: st obs)
  case Nil
  then show ?case by (simp add: observed_def)
next
  case (Cons seq rest)
  let ?e = "env seq"
  let ?obs' = "obs @ turn_obs a env seq"
  from Cons.prems have ns: "seq \<notin> seen_seqs st" and ok: "e_send_ok ?e" by auto
  from ns Cons.prems(2) have nf: "seq \<notin> finalized st" by auto
  from probe_turn_spec [OF ns nf ok, of a] obtain st1 oc where
    pt: "probe_turn a ?e seq st = Inr st1"
    and lr: "log_rows st1 = log_rows st @ [row_for seq oc st1]"
    and fi: "finalized st1 = insert seq (finalized st)"
    and se: "seen_seqs st1 = insert seq (seen_seqs st)"
    and sp: "send_perf st1 = (send_perf st)(seq \<mapsto> e_send_perf ?e)"
    and sw: "send_wall st1 = (send_wall st)(seq \<mapsto> e_send_wall ?e)"
    and oc: "oc = ACKED \<longleftrightarrow> ack_perf st1 seq \<noteq> None"
    by blast
  from probe_turn_stored [OF ns nf ok Cons.prems(1) pt]
  have s1: "stored ?obs' st1" by (simp add: turn_obs_def)
  have row: "row_for seq oc st1 = row_of_obs env seq (map_of ?obs' seq)"
  proof (cases "map_of ?obs' seq")
    case None
    with s1 have "ack_perf st1 seq = None" by (simp add: stored_def del: map_of_append)
    with oc have "oc = TIMEOUT" by (cases oc) simp_all
    with None sw show ?thesis by (simp add: row_for_def row_of_obs_def del: map_of_append)
  next
    case (Some x)
    obtain tp tw where x: "x = (tp, tw)" by (cases x)
    from s1 Some x have "ack_perf st1 seq = Some tp" "ack_wall st1 seq = Some tw"
      by (simp_all add: stored_def del: map_of_append)
    with oc Some x sp sw show ?thesis by (simp add: row_for_def row_of_obs_def del: map_of_append)
  qed
  from Cons.prems(3) have d: "distinct rest" and nin: "seq \<notin> set rest" by simp_all
  from Cons.prems(2) fi se have sub: "finalized st1 \<subseteq> seen_seqs st1" by auto
  from Cons.prems(4) se nin have dj: "set rest \<inter> seen_seqs st1 = {}" by auto
  from Cons.prems(5) have oks: "\<forall>s \<in> set rest. e_send_ok (env s)" by simp
  from Cons.IH [OF s1 sub d dj oks] obtain st' where
    cl: "client_loop a env rest st1 = Inr st'"
    and lr': "log_rows st' = log_rows st1 @ expected_from a env ?obs' rest"
    and s': "stored (?obs' @ observed a env rest) st'" by blast
  from pt cl lr lr' row s' show ?case by (simp add: observed_def)
qed

lemma observed_snoc: "1 \<le> i \<Longrightarrow> observed a env [1 .. i - 1] @ turn_obs a env i = observed a env [1 .. i]"
proof -
  assume "1 \<le> i"
  then have "[1 .. i] = [1 .. i - 1] @ [i]" by (rule upto_rec2)
  then show ?thesis by (simp add: observed_def)
qed

lemma expected_from_upto:
  "1 \<le> i \<Longrightarrow> expected_from a env (observed a env [1 .. i - 1]) [i .. n] = map (expected_row a env) [i .. n]"
proof (induction i n rule: upto.induct)
  case (1 i j)
  show ?case
  proof (cases "i \<le> j")
    case False
    then show ?thesis by simp
  next
    case True
    then have u: "[i .. j] = i # [i + 1 .. j]" by (simp add: upto_rec1)
    from "1.prems" have "1 \<le> i + 1" by simp
    from "1.IH" [OF True this]
    have ih: "expected_from a env (observed a env [1 .. i]) [i + 1 .. j]
        = map (expected_row a env) [i + 1 .. j]" by simp
    show ?thesis unfolding u
      by (simp add: observed_snoc [OF "1.prems"] ih expected_row_def)
  qed
qed

lemma client_run_expected:
  assumes sends: "\<forall>s \<in> {1 .. a_n a}. e_send_ok (env s)"
  shows "\<exists>st. client_run a env = Inr st
       \<and> log_rows st = map (expected_row a env) [1 .. a_n a]
       \<and> stored (observed a env [1 .. a_n a]) st"
proof -
  have s0: "stored [] init_state" by (simp add: stored_def init_state_def fun_eq_iff)
  from client_loop_expected [OF s0, of "[1 .. a_n a]" env a] sends
  obtain st where l: "client_loop a env [1 .. a_n a] init_state = Inr st"
    and lr: "log_rows st = expected_from a env [] [1 .. a_n a]"
    and so: "stored (observed a env [1 .. a_n a]) st"
    by (auto simp: init_state_def)
  have "expected_from a env (observed a env [1 .. 1 - 1]) [1 .. a_n a]
      = map (expected_row a env) [1 .. a_n a]" by (rule expected_from_upto) simp
  then have "expected_from a env [] [1 .. a_n a] = map (expected_row a env) [1 .. a_n a]"
    by (simp add: observed_def)
  with l lr so show ?thesis by (simp add: client_run_def)
qed

lemma filter_eq_upto: "1 \<le> s \<Longrightarrow> s \<le> n \<Longrightarrow> filter (\<lambda>q. q = s) [1 .. n] = [s :: int]"
proof -
  assume "1 \<le> s" "s \<le> n"
  then have u: "[1 .. n] = [1 .. s - 1] @ s # [s + 1 .. n]" by (rule upto_split3)
  have "filter (\<lambda>q. q = s) [1 .. s - 1] = []" "filter (\<lambda>q. q = s) [s + 1 .. n] = []"
    by (auto simp: filter_empty_conv)
  then show ?thesis unfolding u by simp
qed

lemma r_seq_expected [simp]: "r_seq (expected_row a env seq) = seq"
  by (simp add: expected_row_def row_of_obs_def split: option.splits)

lemma rows_of_expected:
  assumes "log_rows st = map (expected_row a env) [1 .. n]" "1 \<le> s" "s \<le> n"
  shows "rows_of s st = [expected_row a env s]"
proof -
  have "rows_of s st = map (expected_row a env) (filter (\<lambda>q. q = s) [1 .. n])"
    unfolding rows_of_def assms(1) by (simp add: filter_map comp_def)
  with filter_eq_upto [OF assms(2,3)] show ?thesis by simp
qed

lemma map_of_first: "map_of xs k = Some v \<Longrightarrow> map_of (xs @ ys) k = Some v"
  by (simp add: map_add_def)

lemma expected_row_rtt_ok:
  assumes ot: "on_time a env" and r: "1 \<le> seq" "seq \<le> a_n a"
  shows "rtt_ok (expected_row a env seq)"
proof (cases "map_of (observed a env [1 .. seq]) seq")
  case None
  then show ?thesis by (simp add: expected_row_def row_of_obs_def rtt_ok_def)
next
  case (Some x)
  obtain tp tw where x: "x = (tp, tw)" by (cases x)
  from Some x have "(seq, tp, tw) \<in> set (observed a env [1 .. seq])" by (auto dest: map_of_SomeD)
  then obtain j where j: "1 \<le> j" "j \<le> seq" and m: "(seq, tp, tw) \<in> set (turn_obs a env j)"
    by (auto simp: observed_def)
  from j r have jr: "j \<in> {1 .. a_n a}" by simp
  from ot jr m have c: "(seq = j \<longrightarrow> e_send_perf (env j) \<le> tp) \<and> \<not> (j < seq \<and> seq \<le> a_n a)"
    unfolding on_time_def by fastforce
  with j r have "j = seq" by simp
  with c have "e_send_perf (env seq) \<le> tp" by simp
  with Some x show ?thesis by (simp add: expected_row_def row_of_obs_def rtt_ok_def)
qed

text \<open>
  Claim C2. Take a session in which every send succeeds and a probe \<open>s\<close> of it whose
  acknowledgment is read for the first time, at monotonic time \<open>tp0\<close> and wall time \<open>tw0\<close>,
  during the turns of the probes before it. Then the log has exactly one row for \<open>s\<close>: it
  is ACKED, its acknowledgment time is \<open>tw0\<close> and its round-trip time is computed from
  \<open>tp0\<close>, whatever is read or not read during the turn of \<open>s\<close> itself and later; and \<open>tp0\<close> and
  \<open>tw0\<close> are what the dictionaries hold for \<open>s\<close> at the end. More generally, every row of the
  log is the row that the first observation of its acknowledgment up to its own turn gives
  (TIMEOUT when there is none), and at the end the dictionaries hold, for every sequence
  number, the readings of the first acknowledgment read for it in the session and of no
  later one.
\<close>

theorem first_observation_used:
  assumes sends: "\<forall>q \<in> {1 .. a_n a}. e_send_ok (env q)" and range: "1 \<le> s" "s \<le> a_n a"
    and early: "map_of (observed a env [1 .. s - 1]) s = Some (tp0, tw0)"
  shows "\<exists>st. client_run a env = Inr st
       \<and> rows_of s st =
           [\<lparr> r_seq = s, r_send_ts = Some (e_send_wall (env s)), r_ack_ts = Some tw0,
              r_rtt_ms = Some ((tp0 - e_send_perf (env s)) * 1000), r_outcome = ACKED \<rparr>]
       \<and> ack_perf st s = Some tp0 \<and> ack_wall st s = Some tw0
       \<and> log_rows st = map (expected_row a env) [1 .. a_n a]
       \<and> stored (observed a env [1 .. a_n a]) st"
proof -
  from client_run_expected [OF sends] obtain st where
    run: "client_run a env = Inr st"
    and lr: "log_rows st = map (expected_row a env) [1 .. a_n a]"
    and so: "stored (observed a env [1 .. a_n a]) st" by blast
  from range(1) have "observed a env [1 .. s] = observed a env [1 .. s - 1] @ turn_obs a env s"
    by (simp add: observed_snoc)
  with early have own: "map_of (observed a env [1 .. s]) s = Some (tp0, tw0)"
    by (simp add: map_of_first del: map_of_append)
  from range have "[1 .. a_n a] = [1 .. s - 1] @ [s .. a_n a]" by (rule upto_split1)
  then have "observed a env [1 .. a_n a] = observed a env [1 .. s - 1] @ observed a env [s .. a_n a]"
    by (simp add: observed_def)
  with early have all: "map_of (observed a env [1 .. a_n a]) s = Some (tp0, tw0)"
    by (simp add: map_of_first del: map_of_append)
  from so all have st: "ack_perf st s = Some tp0" "ack_wall st s = Some tw0"
    by (simp_all add: stored_def)
  from rows_of_expected [OF lr range] own
  have "rows_of s st =
      [\<lparr> r_seq = s, r_send_ts = Some (e_send_wall (env s)), r_ack_ts = Some tw0,
         r_rtt_ms = Some ((tp0 - e_send_perf (env s)) * 1000), r_outcome = ACKED \<rparr>]"
    by (simp add: expected_row_def row_of_obs_def)
  with run st lr so show ?thesis by blast
qed

theorem first_observation_used_witness:
  "map_of (observed two early_env [1 .. 2 - 1]) 2 = Some (1 / 2, 201 / 2)
   \<and> (\<exists>st. client_run two early_env = Inr st
         \<and> rows_of 2 st =
             [\<lparr> r_seq = 2, r_send_ts = Some 102, r_ack_ts = Some (201 / 2),
                r_rtt_ms = Some ((1 / 2 - 2) * 1000), r_outcome = ACKED \<rparr>])"
proof -
  have s: "\<forall>q \<in> {1 .. a_n two}. e_send_ok (early_env q)"
    by (simp add: early_env_def quiet_turn_def)
  have r: "(1::int) \<le> 2" "2 \<le> a_n two" by (simp_all add: two_def)
  have e: "map_of (observed two early_env [1 .. 2 - 1]) 2 = Some (1 / 2, 201 / 2)" by code_simp
  have f: "e_send_wall (early_env 2) = 102" "e_send_perf (early_env 2) = 2"
    by (simp_all add: early_env_def quiet_turn_def)
  from first_observation_used [OF s r e]
  have "\<exists>st. client_run two early_env = Inr st
         \<and> rows_of 2 st =
             [\<lparr> r_seq = 2, r_send_ts = Some 102, r_ack_ts = Some (201 / 2),
                r_rtt_ms = Some ((1 / 2 - 2) * 1000), r_outcome = ACKED \<rparr>]"
    unfolding f by blast
  with e show ?thesis by blast
qed

text \<open>
  Claim C3, as amended. In a session of the UDP client in which every send succeeds, each
  row with outcome ACKED carries the round-trip time \<open>(tp - sp) * 1000\<close>, where \<open>sp\<close> is the
  monotonic reading taken when the probe was sent and \<open>tp\<close> the monotonic reading taken
  when an acknowledgment for it was read for the first time, in its own turn or in an
  earlier one. Replacing the wall clock readings of the session by any others changes no
  round-trip time. The time is not negative when the acknowledgments that are read come in
  time: none for a probe that is still to be sent, and the one for the awaited probe at a
  reading not before its send reading. The TCP client computes the round-trip time from
  two wall clock times: the one the acknowledgment carries minus its own send time.
\<close>

theorem rtt_from_monotonic_clock:
  assumes sends: "\<forall>s \<in> {1 .. a_n a}. e_send_ok (env s)"
  shows "\<exists>st. client_run a env = Inr st
       \<and> (\<forall>r \<in> set (log_rows st). r_outcome r = ACKED \<longrightarrow>
            (\<exists>tp tw. map_of (observed a env [1 .. r_seq r]) (r_seq r) = Some (tp, tw)
                \<and> r_rtt_ms r = Some ((tp - e_send_perf (env (r_seq r))) * 1000)))
       \<and> ((\<forall>seq. mono_env (env' seq) = mono_env (env seq)) \<longrightarrow>
            (\<exists>st'. client_run a env' = Inr st'
                \<and> map r_rtt_ms (log_rows st') = map r_rtt_ms (log_rows st)))
       \<and> (on_time a env \<longrightarrow>
            (\<forall>r \<in> set (log_rows st). r_outcome r = ACKED \<longrightarrow> (\<exists>x. r_rtt_ms r = Some x \<and> 0 \<le> x)))
       \<and> tcp_on_data v seq send_ts (ack_of seq ts) now tst =
           Next (tst\<lparr> rtts := rtts tst @ [(ts - send_ts) * 1000],
                      results := results tst @
                        [\<lparr> t_seq = seq, t_send_ts = send_ts, t_ack_ts = Some ts,
                           t_rtt_ms = Some ((ts - send_ts) * 1000) \<rparr>],
                      tcp_out := tcp_out tst @ (if v then [AckLine seq ((ts - send_ts) * 1000)] else []) \<rparr>)"
proof -
  from client_run_expected [OF sends] obtain st where
    run: "client_run a env = Inr st"
    and lr: "log_rows st = map (expected_row a env) [1 .. a_n a]" by blast
  have formula: "\<forall>r \<in> set (log_rows st). r_outcome r = ACKED \<longrightarrow>
            (\<exists>tp tw. map_of (observed a env [1 .. r_seq r]) (r_seq r) = Some (tp, tw)
                \<and> r_rtt_ms r = Some ((tp - e_send_perf (env (r_seq r))) * 1000))"
  proof (intro ballI impI)
    fix r assume "r \<in> set (log_rows st)" and acked: "r_outcome r = ACKED"
    with lr obtain q where r: "r = expected_row a env q" by auto
    then have q: "r_seq r = q" by simp
    from acked show "\<exists>tp tw. map_of (observed a env [1 .. r_seq r]) (r_seq r) = Some (tp, tw)
                \<and> r_rtt_ms r = Some ((tp - e_send_perf (env (r_seq r))) * 1000)"
      unfolding q unfolding r
      by (cases "map_of (observed a env [1 .. q]) q")
        (auto simp: expected_row_def row_of_obs_def)
  qed
  have indep: "(\<forall>seq. mono_env (env' seq) = mono_env (env seq)) \<longrightarrow>
            (\<exists>st'. client_run a env' = Inr st'
                \<and> map r_rtt_ms (log_rows st') = map r_rtt_ms (log_rows st))"
  proof
    assume "\<forall>seq. mono_env (env' seq) = mono_env (env seq)"
    then have "\<forall>seq. mono_env (env seq) = mono_env (env' seq)" by simp
    from client_run_view [OF this run] show "\<exists>st'. client_run a env' = Inr st'
                \<and> map r_rtt_ms (log_rows st') = map r_rtt_ms (log_rows st)" by blast
  qed
  have nonneg: "on_time a env \<longrightarrow>
      (\<forall>r \<in> set (log_rows st). r_outcome r = ACKED \<longrightarrow> (\<exists>x. r_rtt_ms r = Some x \<and> 0 \<le> x))"
  proof (intro impI ballI)
    fix r assume ot: "on_time a env" and "r \<in> set (log_rows st)" and acked: "r_outcome r = ACKED"
    with lr obtain q where r: "r = expected_row a env q" and q: "1 \<le> q" "q \<le> a_n a" by auto
    from expected_row_rtt_ok [OF ot q] r acked
    show "\<exists>x. r_rtt_ms r = Some x \<and> 0 \<le> x" by (simp add: rtt_ok_def)
  qed
  have tcp: "tcp_on_data v seq send_ts (ack_of seq ts) now tst =
           Next (tst\<lparr> rtts := rtts tst @ [(ts - send_ts) * 1000],
                      results := results tst @
                        [\<lparr> t_seq = seq, t_send_ts = send_ts, t_ack_ts = Some ts,
                           t_rtt_ms = Some ((ts - send_ts) * 1000) \<rparr>],
                      tcp_out := tcp_out tst @ (if v then [AckLine seq ((ts - send_ts) * 1000)] else []) \<rparr>)"
    by (simp add: tcp_on_data_def ack_of_def dict_get_def Let_def)
  from run formula indep nonneg tcp show ?thesis by blast
qed

theorem rtt_from_monotonic_clock_witness:
  "on_time two dup_env
   \<and> (\<exists>st. client_run two dup_env = Inr st \<and> list_all rtt_ok (log_rows st))"
proof -
  have u: "{1 .. a_n two} = {1, 2}" by (auto simp: two_def)
  have s: "\<forall>s \<in> {1 .. a_n two}. e_send_ok (dup_env s)" by (simp add: dup_env_def)
  have t1: "turn_obs two dup_env 1 = [(1, 2 / 10, 1002 / 10)]" by code_simp
  have t2: "turn_obs two dup_env 2 = [(1, 22 / 10, 1022 / 10)]" by code_simp
  have o: "on_time two dup_env"
    unfolding on_time_def u by (simp add: t1 t2 dup_env_def)
  from rtt_from_monotonic_clock [OF s, of dup_env False 0 0 0 0 tcp_init] o
  obtain st where "client_run two dup_env = Inr st"
    "\<forall>r \<in> set (log_rows st). r_outcome r = ACKED \<longrightarrow> (\<exists>x. r_rtt_ms r = Some x \<and> 0 \<le> x)"
    by blast
  then have "\<exists>st. client_run two dup_env = Inr st \<and> list_all rtt_ok (log_rows st)"
    by (auto simp: list_all_iff rtt_ok_def)
  with o show ?thesis by simp
qed

theorem rtt_negative_counterexample:
  "(case client_run two early_env of
      Inl e \<Rightarrow> []
    | Inr st \<Rightarrow> map (\<lambda>r. (r_seq r, r_outcome r, r_rtt_ms r)) (log_rows st))
     = [(1, ACKED, Some 700), (2, ACKED, Some (- 1500))]
   \<and> map t_rtt_ms (results (tcp_run tcp_one behind_env)) = [Some (- 1000)]"
  by code_simp

section \<open>The loss models of the UDP server\<close>

lemma seqs_of_Nil [simp]: "seqs_of [] = []"
  by (simp add: seqs_of_def)

lemma seqs_of_Cons:
  "seqs_of (d # ds) =
     (case parse_seq (d_data d) of Inl e \<Rightarrow> seqs_of ds | Inr s \<Rightarrow> s # seqs_of ds)"
  by (simp add: seqs_of_def split: sum.splits)


lemma serve_Cons:
  "serve_one rng a d s = (s', ev) \<Longrightarrow>
     snd (serve rng a (d # ds) s) = ev # snd (serve rng a ds s')
     \<and> fst (serve rng a (d # ds) s) = fst (serve rng a ds s')"
  by (simp split: prod.splits)

lemma dropped_serve:
  "dropped (snd (serve rng a ds (c, g))) = drops rng (s_loss_prob a) (s_drop_k a) (seqs_of ds) g"
proof (induction ds arbitrary: c g)
  case Nil
  then show ?case by simp
next
  case (Cons d ds)
  obtain c' g' ev where so: "serve_one rng a d (c, g) = ((c', g'), ev)"
    by (metis prod.exhaust)
  from serve_Cons [OF so, of ds]
  have h: "snd (serve rng a (d # ds) (c, g)) = ev # snd (serve rng a ds (c', g'))" by blast
  note ih = Cons.IH [of c' g']
  show ?case
  proof (cases "parse_seq (d_data d)")
    case (Inl e)
    with so have "ev = Ignored" "g' = g" by (auto simp: serve_one_def)
    with ih Inl show ?thesis unfolding h by (auto simp: seqs_of_Cons)
  next
    case (Inr seq)
    show ?thesis
    proof (cases "s_drop_k a > 0 \<and> seq mod s_drop_k a = 0")
      case True
      with Inr so have "ev = DropK seq" "g' = g" by (auto simp: serve_one_def)
      with ih Inr True show ?thesis unfolding h by (auto simp: seqs_of_Cons)
    next
      case nk: False
      show ?thesis
      proof (cases "s_loss_prob a > 0")
        case False
        with Inr nk so have "ev = AckTo (ack_msg seq (d_recv_ts d)) (d_addr d)" "g' = g"
          by (auto simp: serve_one_def)
        with ih Inr nk False show ?thesis unfolding h by (auto simp: seqs_of_Cons)
      next
        case True
        obtain u g1 where r: "rng g = (u, g1)" by fastforce
        show ?thesis
        proof (cases "u < s_loss_prob a")
          case lt: True
          with Inr nk True r so have "ev = LossProb seq" "g' = g1"
            by (auto simp: serve_one_def)
          with ih Inr nk True r lt show ?thesis unfolding h by (auto simp: seqs_of_Cons)
        next
          case ge: False
          with Inr nk True r so have "ev = AckTo (ack_msg seq (d_recv_ts d)) (d_addr d)" "g' = g1"
            by (auto simp: serve_one_def)
          with ih Inr nk True r ge show ?thesis unfolding h by (auto simp: seqs_of_Cons)
        qed
      qed
    qed
  qed
qed

lemma drops_deterministic:
  "0 < k \<Longrightarrow> \<not> 0 < p \<Longrightarrow> drops rng p k seqs g = filter (\<lambda>seq. seq mod k = 0) seqs"
  by (induction seqs) auto

text \<open>
  Claim C6. Two runs of the serve loop with the same seed, the same loss probability and
  the same drop parameter, over datagrams whose well-formed probes carry the same sequence
  numbers in the same order, drop the same sequence numbers in the same order. The runs
  may differ in everything else: the other fields and the receive times of the probes, the
  senders' addresses, malformed datagrams in between, the bind address and verbosity.
\<close>

theorem drops_reproducible:
  assumes "s_seed a = s_seed b" and "s_loss_prob a = s_loss_prob b" and "s_drop_k a = s_drop_k b"
    and "seqs_of ds = seqs_of ds'"
  shows "dropped (snd (serve rng a ds (0, seed_rng (s_seed a))))
       = dropped (snd (serve rng b ds' (0, seed_rng (s_seed b))))"
  using assms by (simp add: dropped_serve)

theorem drops_reproducible_witness:
  "seqs_of run_a = seqs_of run_b
   \<and> dropped (snd (serve toy_rng half_a run_a (0, toy_seed (s_seed half_a)))) = [1, 2, 3]
   \<and> dropped (snd (serve toy_rng half_b run_b (0, toy_seed (s_seed half_b)))) = [1, 2, 3]"
proof -
  have s: "s_seed half_a = s_seed half_b" "s_loss_prob half_a = s_loss_prob half_b"
    "s_drop_k half_a = s_drop_k half_b" by (simp_all add: half_a_def half_b_def)
  have q: "seqs_of run_a = seqs_of run_b" by code_simp
  have a: "dropped (snd (serve toy_rng half_a run_a (0, toy_seed (s_seed half_a)))) = [1, 2, 3]"
    by code_simp
  from drops_reproducible [OF s q, of toy_rng toy_seed] a q show ?thesis by simp
qed

subsection \<open>Client and server on a loss-free network\<close>

lemma parse_probe_msg: "parse_seq (Some (probe_msg seq ts)) = Inr seq"
  by (simp add: probe_msg_def parse_seq_def dict_get_def)

lemma parse_ack_msg: "parse_seq (Some (ack_msg seq ts)) = Inr seq"
  by (simp add: ack_msg_def parse_seq_def dict_get_def)

lemma lossless_turn_rx:
  assumes "0 < s_drop_k sa" "\<not> 0 < s_loss_prob sa"
  shows "e_rx (lossless_turn sa seq) =
     (if seq mod s_drop_k sa = 0 then [Rx (2 * real_of_int seq + 1 / 1000) SockTimeout]
      else [Rx (2 * real_of_int seq + 1 / 1000)
              (Datagram (Some (ack_msg seq (1000 + 2 * real_of_int seq + 5 / 1000)))
                 (2 * real_of_int seq + 1 / 100) (1000 + 2 * real_of_int seq + 1 / 100))])"
  using assms
  by (simp add: lossless_turn_def Let_def serve_one_def probe_dgram_def parse_probe_msg)

lemma lossless_turn_fields:
  "e_send_ok (lossless_turn sa seq)" "e_wait_start (lossless_turn sa seq) = 2 * real_of_int seq"
  by (simp_all add: lossless_turn_def Let_def)

lemma lossless_probe_turn:
  assumes k: "0 < s_drop_k sa" and det: "\<not> 0 < s_loss_prob sa" and budget: "1 / 1000 < a_timeout a"
    and ns: "seq \<notin> seen_seqs st" and nf: "seq \<notin> finalized st" and fresh: "ack_perf st seq = None"
  shows "\<exists>st'. probe_turn a (lossless_turn sa seq) seq st = Inr st'
       \<and> log_rows st' = log_rows st
            @ [row_for seq (if seq mod s_drop_k sa = 0 then TIMEOUT else ACKED) st']
       \<and> finalized st' = insert seq (finalized st)
       \<and> seen_seqs st' = insert seq (seen_seqs st)
       \<and> (\<forall>s. s \<noteq> seq \<longrightarrow> ack_perf st' s = ack_perf st s)"
proof -
  let ?e = "lossless_turn sa seq"
  note rx = lossless_turn_rx [OF k det, of seq]
  from probe_turn_spec [OF ns nf lossless_turn_fields(1), of a sa] obtain st' oc where
    pt: "probe_turn a ?e seq st = Inr st'"
    and lr: "log_rows st' = log_rows st @ [row_for seq oc st']"
    and fi: "finalized st' = insert seq (finalized st)"
    and se: "seen_seqs st' = insert seq (seen_seqs st)"
    and oc: "oc = ACKED \<longleftrightarrow> ack_perf st' seq \<noteq> None"
    by blast
  note store = probe_turn_store [OF pt]
  have others: "\<forall>s. s \<noteq> seq \<longrightarrow> ack_perf st' s = ack_perf st s"
  proof (intro allI impI)
    fix s assume "s \<noteq> seq"
    with store [of s] show "ack_perf st' s = ack_perf st s"
      unfolding rx by (auto simp: parse_ack_msg split: if_splits)
  qed
  have "oc = (if seq mod s_drop_k sa = 0 then TIMEOUT else ACKED)"
  proof (cases "seq mod s_drop_k sa = 0")
    case True
    with store [of seq] fresh have "ack_perf st' seq = None" unfolding rx by simp
    with oc True show ?thesis by (cases oc) simp_all
  next
    case False
    let ?v = "a_verbose a"
    let ?m = "Some (ack_msg seq (1000 + 2 * real_of_int seq + 5 / 1000))"
    let ?tp = "2 * real_of_int seq + 1 / 100" and ?tw = "1000 + 2 * real_of_int seq + 1 / 100"
    let ?st2 = "say ?v (Sent seq)
      (st\<lparr> seen_seqs := insert seq (seen_seqs st),
           send_perf := (send_perf st)(seq \<mapsto> e_send_perf ?e),
           send_wall := (send_wall st)(seq \<mapsto> e_send_wall ?e),
           sent_count := sent_count st + 1 \<rparr>)"
    let ?o = "observe ?v seq ?tp ?tw ?st2"
    have nf2: "seq \<notin> finalized ?o" using nf by simp
    have od: "on_datagram ?v seq ?m ?tp ?tw ?st2
        = (finalize seq ACKED (?o\<lparr> ack_count := ack_count ?o + 1 \<rparr>), True)"
      using nf2 unfolding on_datagram_def Let_def by (simp add: parse_ack_msg)
    have w: "wait_loop ?v seq (e_wait_start ?e + a_timeout a) (e_rx ?e) ?st2
        = (finalize seq ACKED (?o\<lparr> ack_count := ack_count ?o + 1 \<rparr>), True)"
      unfolding rx lossless_turn_fields using False budget od by simp
    have "probe_turn a ?e seq st = Inr (finalize seq ACKED (?o\<lparr> ack_count := ack_count ?o + 1 \<rparr>))"
      using ns lossless_turn_fields(1) [of sa seq] w
      by (simp add: probe_turn_def Let_def after_wait_def)
    with pt have "st' = finalize seq ACKED (?o\<lparr> ack_count := ack_count ?o + 1 \<rparr>)" by simp
    then have "ack_perf st' seq = ack_perf ?o seq" by simp
    with observe_stores [of ?v seq ?tp ?tw ?st2] oc False show ?thesis by simp
  qed
  with pt lr fi se others show ?thesis by simp
qed

lemma lossless_client_loop:
  "0 < s_drop_k sa \<Longrightarrow> \<not> 0 < s_loss_prob sa \<Longrightarrow> 1 / 1000 < a_timeout a \<Longrightarrow>
   distinct seqs \<Longrightarrow> finalized st \<subseteq> seen_seqs st \<Longrightarrow>
   \<forall>s \<in> set seqs. s \<notin> seen_seqs st \<and> ack_perf st s = None \<Longrightarrow>
     \<exists>st'. client_loop a (lossless_turn sa) seqs st = Inr st'
       \<and> map r_seq (log_rows st') = map r_seq (log_rows st) @ seqs
       \<and> (\<forall>r \<in> set (log_rows st').
             r \<in> set (log_rows st)
             \<or> r_outcome r = (if r_seq r mod s_drop_k sa = 0 then TIMEOUT else ACKED))"
proof (induction seqs arbitrary: st)
  case Nil
  then show ?case by simp
next
  case (Cons seq rest)
  from Cons.prems have ns: "seq \<notin> seen_seqs st" and fresh: "ack_perf st seq = None" by simp_all
  from ns Cons.prems(5) have nf: "seq \<notin> finalized st" by auto
  from lossless_probe_turn [OF Cons.prems(1,2,3) ns nf fresh] obtain st1 where
    pt: "probe_turn a (lossless_turn sa seq) seq st = Inr st1"
    and lr: "log_rows st1 = log_rows st
            @ [row_for seq (if seq mod s_drop_k sa = 0 then TIMEOUT else ACKED) st1]"
    and fi: "finalized st1 = insert seq (finalized st)"
    and se: "seen_seqs st1 = insert seq (seen_seqs st)"
    and others: "\<forall>s. s \<noteq> seq \<longrightarrow> ack_perf st1 s = ack_perf st s" by blast
  from Cons.prems(4) have d: "distinct rest" and nin: "seq \<notin> set rest" by simp_all
  from Cons.prems(5) fi se have sub: "finalized st1 \<subseteq> seen_seqs st1" by auto
  from Cons.prems(6) se others nin
  have rest: "\<forall>s \<in> set rest. s \<notin> seen_seqs st1 \<and> ack_perf st1 s = None" by auto
  from Cons.IH [OF Cons.prems(1,2,3) d sub rest] obtain st' where
    cl: "client_loop a (lossless_turn sa) rest st1 = Inr st'"
    and seqs: "map r_seq (log_rows st') = map r_seq (log_rows st1) @ rest"
    and rows: "\<forall>r \<in> set (log_rows st').
             r \<in> set (log_rows st1)
             \<or> r_outcome r = (if r_seq r mod s_drop_k sa = 0 then TIMEOUT else ACKED)" by blast
  have "\<forall>r \<in> set (log_rows st').
             r \<in> set (log_rows st)
             \<or> r_outcome r = (if r_seq r mod s_drop_k sa = 0 then TIMEOUT else ACKED)"
  proof
    fix r assume "r \<in> set (log_rows st')"
    with rows have "r \<in> set (log_rows st1)
        \<or> r_outcome r = (if r_seq r mod s_drop_k sa = 0 then TIMEOUT else ACKED)" by simp
    then show "r \<in> set (log_rows st)
        \<or> r_outcome r = (if r_seq r mod s_drop_k sa = 0 then TIMEOUT else ACKED)"
      unfolding lr by auto
  qed
  with pt cl seqs lr show ?case by simp
qed

text \<open>
  Claim C4. With the deterministic model on (\<open>k > 0\<close>, and hence, past the start-up check,
  no loss probability) the server drops exactly the well-formed probes whose sequence
  number is a multiple of \<open>k\<close>, in any stream of datagrams. On a loss-free network with a
  time-out budget that covers the delivery, the client then logs TIMEOUT for exactly the
  multiples of \<open>k\<close> among 1..N and ACKED for the rest. For N = 10 and k = 3 the server drops
  3, 6 and 9, which the client logs as TIMEOUT, and the other seven are logged as ACKED.
\<close>

theorem drop_every_k:
  assumes k: "0 < s_drop_k sa" and det: "\<not> 0 < s_loss_prob sa"
  shows "dropped (snd (serve rng sa ds (c, g))) = filter (\<lambda>seq. seq mod s_drop_k sa = 0) (seqs_of ds)
       \<and> (1 / 1000 < a_timeout a \<longrightarrow>
            (\<exists>st. client_run a (lossless_turn sa) = Inr st
               \<and> map r_seq (log_rows st) = [1 .. a_n a]
               \<and> (\<forall>r \<in> set (log_rows st).
                     r_outcome r = (if r_seq r mod s_drop_k sa = 0 then TIMEOUT else ACKED))))
       \<and> dropped (snd (serve no_rng drop3 (map probe_dgram [1 .. 10]) (0, ()))) = [3, 6, 9]
       \<and> (case client_run ten (lossless_turn drop3) of
            Inl e \<Rightarrow> []
          | Inr st \<Rightarrow> map (\<lambda>r. (r_seq r, r_outcome r)) (log_rows st))
           = [(1, ACKED), (2, ACKED), (3, TIMEOUT), (4, ACKED), (5, ACKED), (6, TIMEOUT),
              (7, ACKED), (8, ACKED), (9, TIMEOUT), (10, ACKED)]"
proof (intro conjI impI)
  show "dropped (snd (serve rng sa ds (c, g))) = filter (\<lambda>seq. seq mod s_drop_k sa = 0) (seqs_of ds)"
    by (simp add: dropped_serve drops_deterministic [OF k det])
next
  assume budget: "1 / 1000 < a_timeout a"
  from lossless_client_loop [OF k det budget, of "[1 .. a_n a]" init_state]
  show "\<exists>st. client_run a (lossless_turn sa) = Inr st
               \<and> map r_seq (log_rows st) = [1 .. a_n a]
               \<and> (\<forall>r \<in> set (log_rows st).
                     r_outcome r = (if r_seq r mod s_drop_k sa = 0 then TIMEOUT else ACKED))"
    by (simp add: client_run_def init_state_def)
next
  show "dropped (snd (serve no_rng drop3 (map probe_dgram [1 .. 10]) (0, ()))) = [3, 6, 9]"
    by code_simp
next
  show "(case client_run ten (lossless_turn drop3) of
            Inl e \<Rightarrow> []
          | Inr st \<Rightarrow> map (\<lambda>r. (r_seq r, r_outcome r)) (log_rows st))
           = [(1, ACKED), (2, ACKED), (3, TIMEOUT), (4, ACKED), (5, ACKED), (6, TIMEOUT),
              (7, ACKED), (8, ACKED), (9, TIMEOUT), (10, ACKED)]"
    by code_simp
qed

theorem drop_every_k_witness:
  "0 < s_drop_k drop3 \<and> \<not> 0 < s_loss_prob drop3
   \<and> dropped (snd (serve no_rng drop3 (map probe_dgram [1 .. 10]) (0, ())))
       = filter (\<lambda>seq. seq mod 3 = 0) (seqs_of (map probe_dgram [1 .. 10]))
   \<and> (\<exists>st. client_run ten (lossless_turn drop3) = Inr st
         \<and> map r_seq (log_rows st) = [1 .. 10]
         \<and> list_all (\<lambda>r. r_outcome r = (if r_seq r mod 3 = 0 then TIMEOUT else ACKED)) (log_rows st))"
proof -
  have k: "0 < s_drop_k drop3" and det: "\<not> 0 < s_loss_prob drop3" by (simp_all add: drop3_def)
  have b: "1 / 1000 < a_timeout ten" by (simp add: ten_def)
  have k3: "s_drop_k drop3 = 3" by (simp add: drop3_def)
  have n: "a_n ten = 10" by (simp add: ten_def)
  from drop_every_k [OF k det, of no_rng "map probe_dgram [1 .. 10]" 0 "()" ten] b k det
  show ?thesis unfolding k3 n by (simp add: list_all_iff)
qed

subsection \<open>The start-up check\<close>

text \<open>
  Claim C5. When the loss probability and the drop parameter are both positive, the whole
  run of the server is one line on standard error followed by exit status 1, whatever
  datagrams are on their way: the generator is not seeded, no socket is opened or bound,
  nothing is received or sent.
\<close>

theorem conflicting_loss_models_fail_fast:
  assumes "0 < s_loss_prob a" and "0 < s_drop_k a"
  shows "server_main seed_rng rng a ds =
           ([WriteStderr ''Use only one loss model at a time (--loss-prob OR --drop-k).''], 1)
       \<and> list_all (\<lambda>e. \<not> is_network e) (fst (server_main seed_rng rng a ds))
       \<and> snd (server_main seed_rng rng a ds) \<noteq> 0"
  using assms by (simp add: server_main_def is_network_def)

theorem conflicting_loss_models_fail_fast_witness:
  "0 < s_loss_prob both_on \<and> 0 < s_drop_k both_on
   \<and> server_main toy_seed toy_rng both_on run_a =
       ([WriteStderr ''Use only one loss model at a time (--loss-prob OR --drop-k).''], 1)
   \<and> server_main toy_seed toy_rng half_a [probe_dgram 4] =
       ([SeedRandom 5, OpenSocket, SetReuseAddr, Bind ''0.0.0.0'' 50995,
         RecvFrom (''client'', 40000), PrintSummary 1 ''bernoulli''], 0)"
proof -
  have h: "0 < s_loss_prob both_on" "0 < s_drop_k both_on" by (simp_all add: both_on_def)
  have r: "server_main toy_seed toy_rng half_a [probe_dgram 4] =
       ([SeedRandom 5, OpenSocket, SetReuseAddr, Bind ''0.0.0.0'' 50995,
         RecvFrom (''client'', 40000), PrintSummary 1 ''bernoulli''], 0)"
    by code_simp
  from conflicting_loss_models_fail_fast [OF h, of toy_seed toy_rng run_a] h r
  show ?thesis by simp
qed

section \<open>The probe loop of the TCP client\<close>

lemma tcp_on_data_cases:
  "(\<exists>err. tcp_on_data v seq ts m now st = Stop (tcp_error seq err st))
   \<or> (\<exists>x. tcp_on_data v seq ts m now st =
         Next (st\<lparr> rtts := rtts st @ [(x - ts) * 1000],
                    results := results st @
                      [\<lparr> t_seq = seq, t_send_ts = ts, t_ack_ts = Some x,
                         t_rtt_ms = Some ((x - ts) * 1000) \<rparr>],
                    tcp_out := tcp_out st @ (if v then [AckLine seq ((x - ts) * 1000)] else []) \<rparr>))"
  by (auto simp: tcp_on_data_def Let_def split: option.splits sum.splits)

lemma raises_iff: "raises e \<longleftrightarrow> (\<exists>x. tcp_probe v e seq st = Stop x)"
  by (cases "te_io e")
    (auto simp: raises_def tcp_probe_def tcp_on_data_def Let_def split: option.splits sum.splits)

lemma tcp_probe_next:
  assumes "\<not> raises e"
  shows "\<exists>st'. tcp_probe v e seq st = Next st'
       \<and> map t_seq (results st') = map t_seq (results st) @ [seq]
       \<and> set (wire st') \<subseteq> insert seq (set (wire st))"
proof (cases "te_io e")
  case (RecvData m now)
  from assms raises_iff [of e v seq st] have ns: "\<nexists>x. tcp_probe v e seq st = Stop x" by simp
  from tcp_on_data_cases [of v seq "te_send_ts e" m now "tcp_sent seq st"] ns RecvData
  show ?thesis by (auto simp: tcp_probe_def tcp_sent_def)
next
  case SendTimeout
  then show ?thesis by (auto simp: tcp_probe_def tcp_timeout_def)
next
  case RecvTimeout
  then show ?thesis by (auto simp: tcp_probe_def tcp_timeout_def tcp_sent_def)
next
  case SendFails
  with assms show ?thesis by (simp add: raises_def tcp_probe_def)
next
  case RecvBroken
  with assms show ?thesis by (simp add: raises_def tcp_probe_def)
qed

lemma tcp_probe_stop:
  assumes "raises e"
  shows "\<exists>st' err. tcp_probe v e seq st = Stop st'
       \<and> results st' = results st \<and> rtts st' = rtts st
       \<and> set (wire st') \<subseteq> insert seq (set (wire st))
       \<and> tcp_out st' = tcp_out st @ [ErrorLine seq err]"
proof (cases "te_io e")
  case (RecvData m now)
  from assms raises_iff [of e v seq st] obtain x where s: "tcp_probe v e seq st = Stop x" by auto
  from tcp_on_data_cases [of v seq "te_send_ts e" m now "tcp_sent seq st"] s RecvData
  show ?thesis by (auto simp: tcp_probe_def tcp_sent_def tcp_error_def)
next
  case SendTimeout
  with assms show ?thesis by (simp add: raises_def tcp_probe_def)
next
  case RecvTimeout
  with assms show ?thesis by (simp add: raises_def tcp_probe_def)
next
  case SendFails
  then show ?thesis by (auto simp: tcp_probe_def tcp_error_def)
next
  case RecvBroken
  then show ?thesis by (auto simp: tcp_probe_def tcp_error_def tcp_sent_def)
qed

lemma tcp_loop_until_break:
  "\<forall>s \<in> set xs. \<not> raises (env s) \<Longrightarrow> raises (env m) \<Longrightarrow>
     map t_seq (results (tcp_loop v env (xs @ m # ys) st)) = map t_seq (results st) @ xs
     \<and> set (wire (tcp_loop v env (xs @ m # ys) st)) \<subseteq> set (wire st) \<union> set xs \<union> {m}
     \<and> (\<exists>err. last (tcp_out (tcp_loop v env (xs @ m # ys) st)) = ErrorLine m err)"
proof (induction xs arbitrary: st)
  case Nil
  from tcp_probe_stop [OF Nil(2), of v m st] show ?case by auto
next
  case (Cons x xs)
  from Cons.prems(1) have nb: "\<not> raises (env x)" and rest: "\<forall>s \<in> set xs. \<not> raises (env s)"
    by simp_all
  from tcp_probe_next [OF nb, of v x st] obtain st1 where
    p: "tcp_probe v (env x) x st = Next st1"
    and r: "map t_seq (results st1) = map t_seq (results st) @ [x]"
    and w: "set (wire st1) \<subseteq> insert x (set (wire st))" by blast
  from Cons.IH [OF rest Cons.prems(2), of st1] p r w show ?case by auto
qed

text \<open>
  Claim C9. Let the first exception other than a timeout that is raised while sending or
  receiving (\<open>raises\<close>: a failing \<^verbatim>\<open>sendall\<close> or \<^verbatim>\<open>recv\<close>, or a reply that cannot be
  turned into a time) occur in the turn of \<open>m\<close>, with \<open>1 \<le> m \<le> N\<close>. Then the results hold
  rows for exactly 1..m-1 (none for m..N), no probe beyond \<open>m\<close> was put on the wire, the
  last line printed is the error line for \<open>m\<close>, and the summary still reports \<open>sent = N\<close>.
\<close>

theorem tcp_error_stops_but_sent_is_n:
  assumes "1 \<le> m" and "m \<le> ta_n a" and "raises (env m)" and "\<forall>s \<in> {1 ..< m}. \<not> raises (env s)"
  shows "map t_seq (results (tcp_run a env)) = [1 .. m - 1]
       \<and> list_all (\<lambda>s. s \<le> m) (wire (tcp_run a env))
       \<and> (\<exists>err. last (tcp_out (tcp_run a env)) = ErrorLine m err)
       \<and> field (tcp_summary rnd a hs dur (tcp_run a env)) ''sent'' = Some (JInt (ta_n a))"
proof -
  from assms(1,2) have u: "[1 .. ta_n a] = [1 .. m - 1] @ m # [m + 1 .. ta_n a]"
    by (rule upto_split3)
  from assms(4) have nb: "\<forall>s \<in> set [1 .. m - 1]. \<not> raises (env s)" by auto
  from tcp_loop_until_break [OF nb assms(3), of "ta_verbose a" "[m + 1 .. ta_n a]" tcp_init]
  have "map t_seq (results (tcp_run a env)) = [1 .. m - 1]"
    and "set (wire (tcp_run a env)) \<subseteq> set [1 .. m - 1] \<union> {m}"
    and "\<exists>err. last (tcp_out (tcp_run a env)) = ErrorLine m err"
    unfolding tcp_run_def u by (simp_all add: tcp_init_def)
  moreover have "field (tcp_summary rnd a hs dur (tcp_run a env)) ''sent'' = Some (JInt (ta_n a))"
    by (simp add: tcp_summary_def dict_get_def)
  ultimately show ?thesis by (auto simp: list_all_iff)
qed

theorem tcp_error_stops_but_sent_is_n_witness:
  "raises (reset_env 3) \<and> \<not> raises (reset_env 1) \<and> \<not> raises (reset_env 2)
   \<and> map t_seq (results (tcp_run tcp_five reset_env)) = [1, 2]
   \<and> wire (tcp_run tcp_five reset_env) = [1, 2, 3]
   \<and> tcp_out (tcp_run tcp_five reset_env) = [ErrorLine 3 OSError]
   \<and> field (tcp_summary dec_round tcp_five 12 340 (tcp_run tcp_five reset_env)) ''sent''
       = Some (JInt 5)"
proof -
  have b: "raises (reset_env 3)" by code_simp
  have n1: "\<not> raises (reset_env 1)" by code_simp
  have n2: "\<not> raises (reset_env 2)" by code_simp
  have i: "{1 ..< 3 :: int} = {1, 2}" by auto
  have nb: "\<forall>s \<in> {1 ..< 3}. \<not> raises (reset_env s)" unfolding i using n1 n2 by simp
  have m: "(1::int) \<le> 3" "3 \<le> ta_n tcp_five" by (simp_all add: tcp_five_def)
  have w: "wire (tcp_run tcp_five reset_env) = [1, 2, 3]" by code_simp
  have o: "tcp_out (tcp_run tcp_five reset_env) = [ErrorLine 3 OSError]" by code_simp
  have u: "[1 .. 2] = [1, 2 :: int]" by code_simp
  from tcp_error_stops_but_sent_is_n [OF m b nb, of dec_round 12 340] b n1 n2 w o
  show ?thesis by (simp add: u tcp_five_def)
qed

text \<open>
  Claim C10, as amended. An acknowledgment line that parses to a JSON object without the
  key \<^verbatim>\<open>server_recv_ts\<close> is not discarded: the wall clock reading \<open>now\<close> of the client
  stands in for the missing time, the probe gets a result row with this time and the
  round-trip time \<open>(now - send_ts) * 1000\<close>, which is the time that passed on the client's
  wall clock between the send and this reading; the loop goes on, and the value is among the
  times that the statistics are computed from (the summary counts it and reports
  statistics). A line that parses to a JSON value that is not an object gets no row: the
  lookup raises, the error line is printed and the probe loop is left.
\<close>

theorem missing_server_time_defaults_to_now:
  assumes "dict_get kvs ''server_recv_ts'' = None"
    and "te_io e = RecvData (Some (JObj kvs)) now"
  shows "(\<exists>st'. tcp_probe v e seq st = Next st'
          \<and> results st' = results st @
               [\<lparr> t_seq = seq, t_send_ts = te_send_ts e, t_ack_ts = Some now,
                  t_rtt_ms = Some ((now - te_send_ts e) * 1000) \<rparr>]
          \<and> rtts st' = rtts st @ [(now - te_send_ts e) * 1000]
          \<and> field (tcp_summary rnd a hs dur st') ''acked'' = Some (JInt (int (length (rtts st)) + 1))
          \<and> field (tcp_summary rnd a hs dur st') ''rtt_ms'' =
              Some (JObj [(''avg'', JFloat (rnd 3 (mean (rtts st')))),
                          (''min'', JFloat (rnd 3 (Min (set (rtts st'))))),
                          (''max'', JFloat (rnd 3 (Max (set (rtts st'))))),
                          (''median'', JFloat (rnd 3 (median (rtts st'))))]))
       \<and> (te_io (env' seq) = RecvData (Some j) now' \<and> (\<forall>members. j \<noteq> JObj members) \<longrightarrow>
            tcp_loop v env' (seq # seqs) st
              = st\<lparr> wire := wire st @ [seq],
                     tcp_out := tcp_out st @ [ErrorLine seq AttributeError] \<rparr>)"
proof (intro conjI impI)
  show "\<exists>st'. tcp_probe v e seq st = Next st'
          \<and> results st' = results st @
               [\<lparr> t_seq = seq, t_send_ts = te_send_ts e, t_ack_ts = Some now,
                  t_rtt_ms = Some ((now - te_send_ts e) * 1000) \<rparr>]
          \<and> rtts st' = rtts st @ [(now - te_send_ts e) * 1000]
          \<and> field (tcp_summary rnd a hs dur st') ''acked'' = Some (JInt (int (length (rtts st)) + 1))
          \<and> field (tcp_summary rnd a hs dur st') ''rtt_ms'' =
              Some (JObj [(''avg'', JFloat (rnd 3 (mean (rtts st')))),
                          (''min'', JFloat (rnd 3 (Min (set (rtts st'))))),
                          (''max'', JFloat (rnd 3 (Max (set (rtts st'))))),
                          (''median'', JFloat (rnd 3 (median (rtts st'))))])"
    using assms
    by (simp add: tcp_probe_def tcp_on_data_def tcp_sent_def Let_def tcp_summary_def dict_get_def)
next
  assume h: "te_io (env' seq) = RecvData (Some j) now' \<and> (\<forall>members. j \<noteq> JObj members)"
  then have g: "py_get_default j ''server_recv_ts'' (JFloat now') = Inl AttributeError"
    by (cases j) simp_all
  with h show "tcp_loop v env' (seq # seqs) st
      = st\<lparr> wire := wire st @ [seq], tcp_out := tcp_out st @ [ErrorLine seq AttributeError] \<rparr>"
    by (simp add: tcp_probe_def tcp_on_data_def tcp_error_def tcp_sent_def)
qed

theorem missing_server_time_defaults_to_now_witness:
  "dict_get [(''seq'', JInt 1)] ''server_recv_ts'' = None
   \<and> (\<exists>st'. tcp_probe False bare_ack_env 1 tcp_init = Next st'
         \<and> results st' = [\<lparr> t_seq = 1, t_send_ts = 1000, t_ack_ts = Some (20001 / 20),
                             t_rtt_ms = Some 50 \<rparr>]
         \<and> rtts st' = [50]
         \<and> field (tcp_summary dec_round tcp_one 12 340 st') ''acked'' = Some (JInt 1))
   \<and> tcp_loop False array_env [1, 2] tcp_init
       = tcp_init\<lparr> wire := [1], tcp_out := [ErrorLine 1 AttributeError] \<rparr>"
proof -
  have d: "dict_get [(''seq'', JInt 1)] ''server_recv_ts'' = None" by (simp add: dict_get_def)
  have io: "te_io bare_ack_env = RecvData (Some (JObj [(''seq'', JInt 1)])) (20001 / 20)"
    by (simp add: bare_ack_env_def)
  have ts: "te_send_ts bare_ack_env = 1000" by (simp add: bare_ack_env_def)
  have ar: "te_io (array_env 1) = RecvData (Some (JArr [])) (20001 / 20)
      \<and> (\<forall>members. JArr [] \<noteq> JObj members)" by (simp add: array_env_def)
  from missing_server_time_defaults_to_now [OF d io, where v = False and seq = 1
      and st = tcp_init and rnd = dec_round and a = tcp_one and hs = 12 and dur = 340
      and j = "JArr []" and now' = "20001 / 20" and env' = array_env
      and seqs = "[2]"] ar
  show ?thesis using d unfolding ts by (auto simp: tcp_init_def)
qed

theorem non_object_ack_counterexample:
  "results (tcp_run tcp_one array_env) = []
   \<and> rtts (tcp_run tcp_one array_env) = []
   \<and> tcp_out (tcp_run tcp_one array_env) = [ErrorLine 1 AttributeError]
   \<and> map t_rtt_ms (results (tcp_run tcp_one (\<lambda>seq. bare_ack_env))) = [Some 50]"
  by code_simp

section \<open>Malformed messages\<close>

lemma parse_seq_missing: "dict_get kvs ''seq'' = None \<Longrightarrow> parse_seq (Some (JObj kvs)) = Inl TypeError"
  by (simp add: parse_seq_def)



lemma tcp_server_undecodable:
  "tcp_server delay ((Undecodable # ls) # conns) = ([[]], Some UnicodeDecodeError)"
  by simp




section \<open>The summaries\<close>

lemma logged_rtts_acked:
  "\<forall>r \<in> set rows. r_outcome r = ACKED \<longrightarrow> r_rtt_ms r \<noteq> None \<Longrightarrow>
     logged_rtts fmt3 rows
       = map (\<lambda>r. fmt3 (the (r_rtt_ms r))) (filter (\<lambda>r. r_outcome r = ACKED) rows)"
proof (induction rows)
  case Nil
  then show ?case by (simp add: logged_rtts_def)
next
  case (Cons r rows)
  then have "logged_rtts fmt3 rows
       = map (\<lambda>r. fmt3 (the (r_rtt_ms r))) (filter (\<lambda>r. r_outcome r = ACKED) rows)" by simp
  moreover have "logged_rtts fmt3 (r # rows) =
      (if r_outcome r = ACKED then fmt3 (the (r_rtt_ms r)) # logged_rtts fmt3 rows
       else logged_rtts fmt3 rows)"
    using Cons.prems by (auto simp: logged_rtts_def)
  ultimately show ?case by simp
qed

lemma client_run_rows:
  assumes sends: "\<forall>s \<in> {1 .. a_n a}. e_send_ok (env s)"
  shows "\<exists>st. client_run a env = Inr st \<and> consistent st
       \<and> map r_seq (log_rows st) = [1 .. a_n a]
       \<and> sent_count st = nat (a_n a)
       \<and> (\<forall>r \<in> set (log_rows st). r_outcome r = ACKED \<longrightarrow> r_rtt_ms r \<noteq> None)"
proof -
  from client_run_consistent [OF sends] obtain st where
    run: "client_run a env = Inr st" and c: "consistent st"
    and seqs: "map r_seq (log_rows st) = [1 .. a_n a]"
    and sc: "sent_count st = nat (a_n a)" by blast
  from run have l: "client_loop a env [1 .. a_n a] init_state = Inr st"
    by (simp add: client_run_def)
  have "(\<forall>s \<in> seen_seqs st. send_perf st s = Some (e_send_perf (env s)))
      \<and> (\<forall>s ap. ack_perf st s = Some ap \<longrightarrow>
           (\<exists>j \<in> seen_seqs st. (s, ap) \<in> set (acks_in (e_rx (env j)))))"
    by (rule client_loop_readings [OF l]) (simp_all add: init_state_def)
  then have sp: "\<forall>s \<in> seen_seqs st. send_perf st s \<noteq> None" by simp
  have "\<forall>r \<in> set (log_rows st). r_outcome r = ACKED \<longrightarrow> r_rtt_ms r \<noteq> None"
  proof (intro ballI impI)
    fix r assume r: "r \<in> set (log_rows st)" and acked: "r_outcome r = ACKED"
    from c r acked have rf: "r = row_for (r_seq r) ACKED st" and a: "ack_perf st (r_seq r) \<noteq> None"
      and "r_seq r \<in> seen_seqs st" by (auto simp: consistent_def)
    with sp have s: "send_perf st (r_seq r) \<noteq> None" by simp
    from a s have "r_rtt_ms (row_for (r_seq r) ACKED st) \<noteq> None"
      by (auto simp: row_for_def)
    with rf show "r_rtt_ms r \<noteq> None" by simp
  qed
  with run c seqs sc show ?thesis by blast
qed

lemma tcp_probe_rtts:
  assumes "rtts st = List.map_filter t_rtt_ms (results st)"
  shows "case tcp_probe v e seq st of
           Next st' \<Rightarrow> rtts st' = List.map_filter t_rtt_ms (results st')
         | Stop st' \<Rightarrow> rtts st' = List.map_filter t_rtt_ms (results st')"
proof (cases "te_io e")
  case (RecvData m now)
  from tcp_on_data_cases [of v seq "te_send_ts e" m now "tcp_sent seq st"] assms RecvData
  show ?thesis
    by (auto simp: tcp_probe_def tcp_sent_def tcp_error_def map_filter_def)
qed (simp_all add: assms tcp_probe_def tcp_timeout_def tcp_error_def tcp_sent_def map_filter_def)

lemma tcp_loop_rtts:
  "rtts st = List.map_filter t_rtt_ms (results st) \<Longrightarrow>
     rtts (tcp_loop v env seqs st) = List.map_filter t_rtt_ms (results (tcp_loop v env seqs st))"
proof (induction seqs arbitrary: st)
  case Nil
  then show ?case by simp
next
  case (Cons s seqs)
  from tcp_probe_rtts [OF Cons.prems, of v "env s" s] Cons.IH
  show ?case by (cases "tcp_probe v (env s) s st") simp_all
qed

text \<open>
  Claim C8, as amended. UDP client, for a session of \<open>N \<ge> 0\<close> probes in which every send
  succeeds: the summary reports \<open>sent = N\<close>, \<open>acked\<close> = the number of rows with outcome
  ACKED, \<open>loss_ratio\<close> = \<open>(sent - acked) / sent\<close> rounded to two decimals (the integer 0 when
  \<open>N = 0\<close>), and average, minimum and maximum, rounded to three decimals, of the round-trip
  times read back from the ACKED rows of the log, each of which has one; all three are null
  when no row is ACKED. TCP client: the summary reports \<open>sent = N\<close>, \<open>acked\<close> = the number of
  round-trip times, which are those of the result rows that have one, and average, minimum,
  maximum and median of them; \<open>rtt_ms\<close> is null when there is none; there is no
  \<open>loss_ratio\<close>.
\<close>

theorem summary_statistics:
  assumes sends: "\<forall>s \<in> {1 .. a_n a}. e_send_ok (env s)" and n: "0 \<le> a_n a"
  shows "(\<exists>st. client_run a env = Inr st
          \<and> field (client_summary rnd fmt3 a st) ''sent'' = Some (JInt (a_n a))
          \<and> field (client_summary rnd fmt3 a st) ''acked''
              = Some (JInt (int (length (acked_rows st))))
          \<and> field (client_summary rnd fmt3 a st) ''loss_ratio''
              = Some (if a_n a = 0 then JInt 0
                      else JFloat (rnd 2 ((real_of_int (a_n a) - real (length (acked_rows st)))
                                            / real_of_int (a_n a))))
          \<and> field (client_summary rnd fmt3 a st) ''rtt_ms''
              = Some (let xs = map (\<lambda>r. fmt3 (the (r_rtt_ms r))) (acked_rows st)
                      in if acked_rows st = []
                         then JObj [(''avg'', JNull), (''min'', JNull), (''max'', JNull)]
                         else JObj [(''avg'', JFloat (rnd 3 (mean xs))),
                                    (''min'', JFloat (rnd 3 (Min (set xs)))),
                                    (''max'', JFloat (rnd 3 (Max (set xs))))]))
       \<and> field (tcp_summary rnd ta hs dur (tcp_run ta tenv)) ''sent'' = Some (JInt (ta_n ta))
       \<and> rtts (tcp_run ta tenv) = List.map_filter t_rtt_ms (results (tcp_run ta tenv))
       \<and> field (tcp_summary rnd ta hs dur (tcp_run ta tenv)) ''acked''
           = Some (JInt (int (length (rtts (tcp_run ta tenv)))))
       \<and> field (tcp_summary rnd ta hs dur (tcp_run ta tenv)) ''loss_ratio'' = None
       \<and> field (tcp_summary rnd ta hs dur (tcp_run ta tenv)) ''rtt_ms''
           = Some (let xs = rtts (tcp_run ta tenv)
                   in if xs = [] then JNull
                      else JObj [(''avg'', JFloat (rnd 3 (mean xs))),
                                 (''min'', JFloat (rnd 3 (Min (set xs)))),
                                 (''max'', JFloat (rnd 3 (Max (set xs)))),
                                 (''median'', JFloat (rnd 3 (median xs)))])"
proof -
  from client_run_rows [OF sends] obtain st where
    run: "client_run a env = Inr st" and c: "consistent st"
    and sc: "sent_count st = nat (a_n a)"
    and rt: "\<forall>r \<in> set (log_rows st). r_outcome r = ACKED \<longrightarrow> r_rtt_ms r \<noteq> None" by blast
  from c have ac: "ack_count st = length (acked_rows st)" by (simp add: consistent_def)
  from logged_rtts_acked [OF rt, of fmt3]
  have lr: "logged_rtts fmt3 (log_rows st) = map (\<lambda>r. fmt3 (the (r_rtt_ms r))) (acked_rows st)"
    by (simp add: acked_rows_def)
  let ?S = "client_summary rnd fmt3 a st"
  have 1: "field ?S ''sent'' = Some (JInt (a_n a))"
    using sc n by (simp add: client_summary_def Let_def dict_get_def)
  have 2: "field ?S ''acked'' = Some (JInt (int (length (acked_rows st))))"
    using ac by (simp add: client_summary_def Let_def dict_get_def)
  have 3: "field ?S ''loss_ratio''
      = Some (if a_n a = 0 then JInt 0
              else JFloat (rnd 2 ((real_of_int (a_n a) - real (length (acked_rows st)))
                                    / real_of_int (a_n a))))"
    using sc ac n by (simp add: client_summary_def Let_def dict_get_def loss_ratio_def)
  have 4: "field ?S ''rtt_ms''
      = Some (let xs = map (\<lambda>r. fmt3 (the (r_rtt_ms r))) (acked_rows st)
              in if acked_rows st = []
                 then JObj [(''avg'', JNull), (''min'', JNull), (''max'', JNull)]
                 else JObj [(''avg'', JFloat (rnd 3 (mean xs))),
                            (''min'', JFloat (rnd 3 (Min (set xs)))),
                            (''max'', JFloat (rnd 3 (Max (set xs))))])"
    by (simp add: client_summary_def Let_def dict_get_def lr stat_def)
  let ?T = "tcp_summary rnd ta hs dur (tcp_run ta tenv)"
  have 5: "field ?T ''sent'' = Some (JInt (ta_n ta))"
    by (simp add: tcp_summary_def dict_get_def)
  have 6: "rtts (tcp_run ta tenv) = List.map_filter t_rtt_ms (results (tcp_run ta tenv))"
    unfolding tcp_run_def by (rule tcp_loop_rtts) (simp add: tcp_init_def map_filter_def)
  have 7: "field ?T ''acked'' = Some (JInt (int (length (rtts (tcp_run ta tenv)))))"
    by (simp add: tcp_summary_def dict_get_def)
  have 8: "field ?T ''loss_ratio'' = None"
    by (simp add: tcp_summary_def dict_get_def)
  have 9: "field ?T ''rtt_ms''
      = Some (let xs = rtts (tcp_run ta tenv)
              in if xs = [] then JNull
                 else JObj [(''avg'', JFloat (rnd 3 (mean xs))),
                            (''min'', JFloat (rnd 3 (Min (set xs)))),
                            (''max'', JFloat (rnd 3 (Max (set xs)))),
                            (''median'', JFloat (rnd 3 (median xs)))])"
    by (simp add: tcp_summary_def dict_get_def Let_def)
  from run 1 2 3 4 have "\<exists>st. client_run a env = Inr st
          \<and> field (client_summary rnd fmt3 a st) ''sent'' = Some (JInt (a_n a))
          \<and> field (client_summary rnd fmt3 a st) ''acked''
              = Some (JInt (int (length (acked_rows st))))
          \<and> field (client_summary rnd fmt3 a st) ''loss_ratio''
              = Some (if a_n a = 0 then JInt 0
                      else JFloat (rnd 2 ((real_of_int (a_n a) - real (length (acked_rows st)))
                                            / real_of_int (a_n a))))
          \<and> field (client_summary rnd fmt3 a st) ''rtt_ms''
              = Some (let xs = map (\<lambda>r. fmt3 (the (r_rtt_ms r))) (acked_rows st)
                      in if acked_rows st = []
                         then JObj [(''avg'', JNull), (''min'', JNull), (''max'', JNull)]
                         else JObj [(''avg'', JFloat (rnd 3 (mean xs))),
                                    (''min'', JFloat (rnd 3 (Min (set xs)))),
                                    (''max'', JFloat (rnd 3 (Max (set xs))))])" by blast
  with 5 6 7 8 9 show ?thesis by blast
qed

theorem summary_statistics_witness:
  "(\<exists>st. client_run two dup_env = Inr st
      \<and> field (client_summary dec_round (dec_round 3) two st) ''sent'' = Some (JInt 2))
   \<and> (case client_run two dup_env of
         Inl e \<Rightarrow> JNull
       | Inr st \<Rightarrow> client_summary dec_round (dec_round 3) two st)
       = JObj [(''sent'', JInt 2), (''acked'', JInt 1), (''loss_ratio'', JFloat (1 / 2)),
               (''seed'', JInt 7),
               (''rtt_ms'', JObj [(''avg'', JFloat 200), (''min'', JFloat 200), (''max'', JFloat 200)])]
   \<and> field (tcp_summary dec_round tcp_one 12 340 (tcp_run tcp_one prompt_env)) ''loss_ratio'' = None"
proof -
  have s: "\<forall>s \<in> {1 .. a_n two}. e_send_ok (dup_env s)" by (simp add: dup_env_def)
  have n: "0 \<le> a_n two" "a_n two = 2" by (simp_all add: two_def)
  have e: "(case client_run two dup_env of
         Inl e \<Rightarrow> JNull
       | Inr st \<Rightarrow> client_summary dec_round (dec_round 3) two st)
       = JObj [(''sent'', JInt 2), (''acked'', JInt 1), (''loss_ratio'', JFloat (1 / 2)),
               (''seed'', JInt 7),
               (''rtt_ms'', JObj [(''avg'', JFloat 200), (''min'', JFloat 200), (''max'', JFloat 200)])]"
    by code_simp
  from summary_statistics [OF s n(1), of dec_round "dec_round 3" tcp_one 12 340 prompt_env]
  have "(\<exists>st. client_run two dup_env = Inr st
      \<and> field (client_summary dec_round (dec_round 3) two st) ''sent'' = Some (JInt 2))
    \<and> field (tcp_summary dec_round tcp_one 12 340 (tcp_run tcp_one prompt_env)) ''loss_ratio'' = None"
    unfolding n(2) by blast
  with e show ?thesis by blast
qed

theorem tcp_summary_counterexample:
  "tcp_summary dec_round tcp_one 12 340 (tcp_run tcp_one prompt_env)
     = JObj [(''sent'', JInt 1), (''acked'', JInt 1),
             (''rtt_ms'', JObj [(''avg'', JFloat 50), (''min'', JFloat 50), (''max'', JFloat 50),
                                (''median'', JFloat 50)]),
             (''handshake_ms'', JFloat 12), (''session_duration_ms'', JFloat 340)]
   \<and> field (tcp_summary dec_round tcp_one 12 340 (tcp_run tcp_one prompt_env)) ''loss_ratio'' = None"
  by code_simp

end
